theory Spec2Isabelle
  imports Main "HOL-Library.Word"
begin

section \<open>USB HID output queue (app/src/usb_hid.c)\<close>

type_synonym byte = "8 word"

text \<open>
  \<^verbatim>\<open>struct usb_hid_msg { uint8_t data[CONFIG_HID_INTERRUPT_EP_MPS]; uint8_t len; }\<close>
\<close>

record usb_hid_msg =
  msg_data :: "byte list"
  msg_len :: "8 word"

text \<open>
  What the worker and the sender do to the outside world, in the order they do it:
  a call of \<^verbatim>\<open>hid_int_ep_write\<close> with its result, the two \<^verbatim>\<open>LOG_ERR\<close> lines, and
  the call of \<^verbatim>\<open>usb_wakeup_request\<close>.
\<close>

datatype hid_event =
    HidWrite usb_hid_msg int
  | LogDropped int
  | LogQueueFull
  | WakeupRequest

text \<open>
  The file's static state: the message queue \<^verbatim>\<open>usb_hid_msgq\<close>, the counter
  \<^verbatim>\<open>usb_hid_failed\<close> and the delayable work item \<^verbatim>\<open>usb_hid_work\<close> (\<open>None\<close> when it is
  not pending, \<open>Some d\<close> when it is scheduled to run after \<open>d\<close> milliseconds).
  \<open>hid_writes\<close> counts the calls of \<^verbatim>\<open>hid_int_ep_write\<close> made so far, and \<open>events\<close>
  records the observable effects. The counter is a C \<^verbatim>\<open>int\<close>; it is modelled as an
  unbounded integer, and \<open>usb_hid_failed\<close> is shown below to stay far from overflow.
\<close>

record usb_hid =
  usb_hid_msgq :: "usb_hid_msg list"
  usb_hid_failed :: int
  usb_hid_work :: "nat option"
  hid_writes :: nat
  events :: "hid_event list"

text \<open>Zephyr's error numbers used by this file.\<close>

definition ENODEV :: int where "ENODEV = 19"

definition ENOMSG :: int where "ENOMSG = 35"

text \<open>
  \<^verbatim>\<open>K_MSGQ_DEFINE(usb_hid_msgq, sizeof(struct usb_hid_msg), 8, 1)\<close>: a queue of at most
  eight messages. With \<^verbatim>\<open>K_NO_WAIT\<close>, \<^verbatim>\<open>k_msgq_put\<close> returns \<^verbatim>\<open>-ENOMSG\<close> on a full queue
  and leaves it as it is; \<^verbatim>\<open>k_msgq_peek\<close> reads the head without removing it and
  \<^verbatim>\<open>k_msgq_get\<close> removes it.
\<close>

definition msgq_max_msgs :: nat where "msgq_max_msgs = 8"

definition k_msgq_put :: "usb_hid_msg list \<Rightarrow> usb_hid_msg \<Rightarrow> int \<times> usb_hid_msg list" where
  "k_msgq_put q m = (if length q < msgq_max_msgs then (0, q @ [m]) else (- ENOMSG, q))"

definition k_msgq_peek :: "usb_hid_msg list \<Rightarrow> usb_hid_msg option" where
  "k_msgq_peek q = (case q of [] \<Rightarrow> None | m # _ \<Rightarrow> Some m)"

definition k_msgq_get :: "usb_hid_msg list \<Rightarrow> usb_hid_msg list" where
  "k_msgq_get q = (case q of [] \<Rightarrow> [] | _ # rest \<Rightarrow> rest)"

text \<open>
  \<^verbatim>\<open>k_work_schedule_for_queue\<close> leaves a pending work item with its delay;
  \<^verbatim>\<open>k_work_reschedule_for_queue\<close> replaces the delay.
\<close>

definition k_work_schedule :: "nat option \<Rightarrow> nat \<Rightarrow> nat option" where
  "k_work_schedule w d = (case w of None \<Rightarrow> Some d | Some d' \<Rightarrow> Some d')"

definition k_work_reschedule :: "nat option \<Rightarrow> nat \<Rightarrow> nat option" where
  "k_work_reschedule w d = Some d"

text \<open>
  \<^verbatim>\<open>usb_hid_work_handler\<close>. The delivery interface is the function \<open>ep\<close>: \<open>ep n\<close> is
  what the \<open>n\<close>-th call of \<^verbatim>\<open>hid_int_ep_write\<close> returns (0 for success).
  \<open>work_handler_body\<close> is the body of the \<^verbatim>\<open>while\<close> loop for the peeked message
  \<open>msg\<close>; its first component says whether the loop goes on (\<open>False\<close> is the early
  \<^verbatim>\<open>return\<close> after rescheduling).
\<close>

definition work_handler_body :: "(nat \<Rightarrow> int) \<Rightarrow> usb_hid_msg \<Rightarrow> usb_hid \<Rightarrow> bool \<times> usb_hid" where
  "work_handler_body ep msg s =
     (let err = ep (hid_writes s);
          s1 = s\<lparr>hid_writes := hid_writes s + 1,
                 events := events s @ [HidWrite msg err]\<rparr>
      in if err \<noteq> 0 then
           let s2 = s1\<lparr>usb_hid_failed := usb_hid_failed s1 + 1\<rparr>
           in if usb_hid_failed s2 < 3 then
                (False, s2\<lparr>usb_hid_work := k_work_reschedule (usb_hid_work s2) 10\<rparr>)
              else
                (True, s2\<lparr>events := events s2 @ [LogDropped (usb_hid_failed s2)],
                          usb_hid_msgq := k_msgq_get (usb_hid_msgq s2),
                          usb_hid_failed := 0\<rparr>)
         else
           (True, s1\<lparr>usb_hid_msgq := k_msgq_get (usb_hid_msgq s1),
                     usb_hid_failed := 0\<rparr>))"

text \<open>The loop: it ends when the queue is empty or on the early \<^verbatim>\<open>return\<close>.\<close>

function usb_hid_work_handler :: "(nat \<Rightarrow> int) \<Rightarrow> usb_hid \<Rightarrow> usb_hid" where
  "usb_hid_work_handler ep s =
     (case k_msgq_peek (usb_hid_msgq s) of
        None \<Rightarrow> s
      | Some msg \<Rightarrow>
          let (continue, s') = work_handler_body ep msg s
          in if continue then usb_hid_work_handler ep s' else s')"
  by pat_completeness auto
termination
  by (relation "measure (\<lambda>(ep, s). length (usb_hid_msgq s))")
     (auto simp: work_handler_body_def Let_def k_msgq_peek_def k_msgq_get_def
           split: list.splits if_splits)
declare usb_hid_work_handler.simps [simp del]

text \<open>\<^verbatim>\<open>in_ready_cb\<close>: the endpoint is ready, run the worker at once.\<close>

definition in_ready_cb :: "usb_hid \<Rightarrow> usb_hid" where
  "in_ready_cb s = s\<lparr>usb_hid_work := k_work_reschedule (usb_hid_work s) 0\<rparr>"

text \<open>Zephyr's \<^verbatim>\<open>enum usb_dc_status_code\<close>, the values of \<^verbatim>\<open>zmk_usb_get_status()\<close>.\<close>

datatype usb_dc_status_code =
    USB_DC_ERROR
  | USB_DC_RESET
  | USB_DC_CONNECTED
  | USB_DC_CONFIGURED
  | USB_DC_DISCONNECTED
  | USB_DC_SUSPEND
  | USB_DC_RESUME
  | USB_DC_INTERFACE
  | USB_DC_SET_HALT
  | USB_DC_CLEAR_HALT
  | USB_DC_SOF
  | USB_DC_UNKNOWN

text \<open>
  \<^verbatim>\<open>struct usb_hid_msg msg = {.len = len}; memcpy(&msg.data, report, len);\<close>
  The data array (\<open>mps\<close> bytes, \<^verbatim>\<open>CONFIG_HID_INTERRUPT_EP_MPS\<close>) is zeroed by the
  initialiser and its first \<open>len\<close> bytes are the report; \<^verbatim>\<open>size_t len\<close> is cut to
  eight bits in the \<open>len\<close> field. The callers pass the size of a report structure,
  which fits the array.
\<close>

definition mk_usb_hid_msg :: "nat \<Rightarrow> byte list \<Rightarrow> nat \<Rightarrow> usb_hid_msg" where
  "mk_usb_hid_msg mps report len =
     \<lparr>msg_data = take len report @ replicate (mps - len) 0, msg_len = of_nat len\<rparr>"

text \<open>
  \<^verbatim>\<open>zmk_usb_hid_send_report\<close>. \<open>status\<close> is the value of \<^verbatim>\<open>zmk_usb_get_status()\<close> and
  \<open>wakeup\<close> the value that \<^verbatim>\<open>usb_wakeup_request()\<close> returns.
\<close>

definition zmk_usb_hid_send_report ::
  "nat \<Rightarrow> usb_dc_status_code \<Rightarrow> int \<Rightarrow> byte list \<Rightarrow> nat \<Rightarrow> usb_hid \<Rightarrow> int \<times> usb_hid" where
  "zmk_usb_hid_send_report mps status wakeup report len s =
     (case status of
        USB_DC_SUSPEND \<Rightarrow> (wakeup, s\<lparr>events := events s @ [WakeupRequest]\<rparr>)
      | USB_DC_ERROR \<Rightarrow> (- ENODEV, s)
      | USB_DC_RESET \<Rightarrow> (- ENODEV, s)
      | USB_DC_DISCONNECTED \<Rightarrow> (- ENODEV, s)
      | USB_DC_UNKNOWN \<Rightarrow> (- ENODEV, s)
      | _ \<Rightarrow>
          let msg = mk_usb_hid_msg mps report len;
              (rc, q) = k_msgq_put (usb_hid_msgq s) msg
          in if rc \<noteq> 0 then (0, s\<lparr>events := events s @ [LogQueueFull]\<rparr>)
             else (0, s\<lparr>usb_hid_msgq := q,
                        usb_hid_work := k_work_schedule (usb_hid_work s) 0\<rparr>))"

text \<open>The static state of \<^verbatim>\<open>usb_hid.c\<close> at start-up: an empty queue, no failure counted.\<close>

definition usb_hid_start :: usb_hid where
  "usb_hid_start =
     \<lparr>usb_hid_msgq = [], usb_hid_failed = 0, usb_hid_work = None, hid_writes = 0, events = []\<rparr>"

text \<open>
  Two readings of the events: the messages handed to \<^verbatim>\<open>hid_int_ep_write\<close>, one for
  each attempt, and the counts logged with dropped messages.
\<close>

fun written :: "hid_event list \<Rightarrow> usb_hid_msg list" where
  "written [] = []"
| "written (HidWrite m e # es) = m # written es"
| "written (LogDropped n # es) = written es"
| "written (LogQueueFull # es) = written es"
| "written (WakeupRequest # es) = written es"

fun dropped :: "hid_event list \<Rightarrow> int list" where
  "dropped [] = []"
| "dropped (HidWrite m e # es) = dropped es"
| "dropped (LogDropped n # es) = n # dropped es"
| "dropped (LogQueueFull # es) = dropped es"
| "dropped (WakeupRequest # es) = dropped es"

text \<open>Reports sent one after the other, each with the same status of the interface.\<close>

fun send_reports ::
  "nat \<Rightarrow> usb_dc_status_code \<Rightarrow> int \<Rightarrow> (byte list \<times> nat) list \<Rightarrow> usb_hid \<Rightarrow> usb_hid" where
  "send_reports mps status wakeup [] s = s"
| "send_reports mps status wakeup ((report, len) # rs) s =
     send_reports mps status wakeup rs
       (snd (zmk_usb_hid_send_report mps status wakeup report len s))"

text \<open>Example states: two messages queued, a full queue, and one report sent at start-up.\<close>

definition two_queued :: usb_hid where
  "two_queued = usb_hid_start\<lparr>usb_hid_msgq := [mk_usb_hid_msg 8 [1, 2] 2, mk_usb_hid_msg 8 [3] 1]\<rparr>"

definition full_queue :: usb_hid where
  "full_queue = usb_hid_start\<lparr>usb_hid_msgq := replicate 8 (mk_usb_hid_msg 8 [1] 1)\<rparr>"

definition one_queued :: usb_hid where
  "one_queued = snd (zmk_usb_hid_send_report 8 USB_DC_CONFIGURED 0 [1, 2] 2 usb_hid_start)"

text \<open>
  The states of \<^verbatim>\<open>usb_hid.c\<close> that can arise: the start state, and every state after a
  call of the sender, after the ready callback, after the work queue has taken the
  work item to run it, and after a round of the handler's loop on the head of the queue.
\<close>

inductive reachable :: "usb_hid \<Rightarrow> bool" where
  start: "reachable usb_hid_start"
| send: "reachable s \<Longrightarrow>
         reachable (snd (zmk_usb_hid_send_report mps status wakeup report len s))"
| ready: "reachable s \<Longrightarrow> reachable (in_ready_cb s)"
| taken: "reachable s \<Longrightarrow> reachable (s\<lparr>usb_hid_work := None\<rparr>)"
| round: "reachable s \<Longrightarrow> k_msgq_peek (usb_hid_msgq s) = Some msg \<Longrightarrow>
          reachable (snd (work_handler_body ep msg s))"

text \<open>What holds of the counter in every such state.\<close>

definition failed_inv :: "usb_hid \<Rightarrow> bool" where
  "failed_inv s =
     (0 \<le> usb_hid_failed s \<and> usb_hid_failed s \<le> 2 \<and>
      (\<forall>n\<in>set (dropped (events s)). n = 3) \<and>
      (usb_hid_msgq s = [] \<longrightarrow> usb_hid_failed s = 0))"

section \<open>Split service (app/src/split/bluetooth/service.c)\<close>

text \<open>
  Memory is byte addressed. For each static object of the file, an address is the
  distance in bytes from the start of the object, so the object itself is the
  addresses below its size and a larger address is memory behind it.
\<close>

type_synonym memory = "nat \<Rightarrow> byte"

definition memcpy :: "memory \<Rightarrow> nat \<Rightarrow> byte list \<Rightarrow> nat \<Rightarrow> memory" where
  "memcpy m dst src n = (\<lambda>a. if dst \<le> a \<and> a < dst + n then src ! (a - dst) else m a)"

definition load :: "memory \<Rightarrow> nat \<Rightarrow> nat \<Rightarrow> byte list" where
  "load m off n = map m [off..<off + n]"

text \<open>An integer field, least significant byte first.\<close>

definition le_word :: "byte list \<Rightarrow> 32 word" where
  "le_word bs = foldr (\<lambda>b acc. ucast b + 256 * acc) bs 0"

text \<open>A C string in a character array of \<open>n\<close> bytes at \<open>off\<close>: the bytes before the first NUL.\<close>

definition c_string :: "memory \<Rightarrow> nat \<Rightarrow> nat \<Rightarrow> byte list" where
  "c_string m off n = takeWhile (\<lambda>b. b \<noteq> 0) (load m off n)"

text \<open>
  The layout of \<^verbatim>\<open>struct zmk_split_run_behavior_payload\<close>, which the file takes from
  \<^verbatim>\<open>zmk/split/service.h\<close>: where the fields of \<^verbatim>\<open>struct zmk_split_run_behavior_data\<close>
  lie, the size of that structure, and the length of the array \<^verbatim>\<open>behavior_dev\<close> that
  follows it.
\<close>

record payload_layout =
  position_off :: nat
  position_len :: nat
  param1_off :: nat
  param2_off :: nat
  state_off :: nat
  data_size :: nat
  dev_len :: nat

text \<open>
  \<^verbatim>\<open>offsetof(struct zmk_split_run_behavior_payload, behavior_dev)\<close> and
  \<^verbatim>\<open>sizeof(struct zmk_split_run_behavior_payload)\<close>: the character array follows the
  data without padding.
\<close>

definition behavior_dev_offset :: "payload_layout \<Rightarrow> nat" where
  "behavior_dev_offset L = data_size L"

definition payload_size :: "payload_layout \<Rightarrow> nat" where
  "payload_size L = data_size L + dev_len L"

text \<open>
  Modelled from the spec: the header \<^verbatim>\<open>zmk/split/service.h\<close> that declares
  \<^verbatim>\<open>struct zmk_split_run_behavior_data\<close> and \<^verbatim>\<open>struct zmk_split_run_behavior_payload\<close>.
  The fields are carved out of the storage at fixed offsets, in this order:
  \<open>position: uint16\<close>, \<open>param1: uint32\<close>, \<open>param2: uint32\<close>, \<open>state: uint8\<close>, and
  the identifier of \<open>n\<close> bytes.
\<close>

definition spec_layout :: "nat \<Rightarrow> payload_layout" where
  "spec_layout n =
     \<lparr>position_off = 0, position_len = 2, param1_off = 2, param2_off = 6,
      state_off = 10, data_size = 11, dev_len = n\<rparr>"

text \<open>\<^verbatim>\<open>struct zmk_behavior_binding\<close> and \<^verbatim>\<open>struct zmk_behavior_binding_event\<close>.\<close>

record zmk_behavior_binding =
  behavior_dev :: "byte list"
  param1 :: "32 word"
  param2 :: "32 word"

record zmk_behavior_binding_event =
  position :: "32 word"
  timestamp :: int

text \<open>
  The behavior collaborator: \<^verbatim>\<open>behavior_keymap_binding_pressed\<close> and
  \<^verbatim>\<open>behavior_keymap_binding_released\<close>, each returning 0 or an error.
\<close>

record behaviors =
  behavior_keymap_binding_pressed ::
    "zmk_behavior_binding \<Rightarrow> zmk_behavior_binding_event \<Rightarrow> int"
  behavior_keymap_binding_released ::
    "zmk_behavior_binding \<Rightarrow> zmk_behavior_binding_event \<Rightarrow> int"

datatype svc_event =
    BindingPressed zmk_behavior_binding zmk_behavior_binding_event
  | BindingReleased zmk_behavior_binding zmk_behavior_binding_event
  | LogFailedInvoke "byte list" int

text \<open>
  The state of the service: the memory at \<^verbatim>\<open>behavior_run_payload\<close>, the memory at
  \<^verbatim>\<open>hid_indicators\<close>, whether \<^verbatim>\<open>split_svc_update_indicators_work\<close> has been submitted,
  and the calls and log lines made so far.
\<close>

record split_svc =
  behavior_run_payload :: memory
  hid_indicators :: memory
  indicators_work :: bool
  svc_events :: "svc_event list"

text \<open>
  Bluetooth ATT error codes and \<^verbatim>\<open>BT_GATT_ERR\<close> of Zephyr; \<^verbatim>\<open>BT_ATT_ERR_UNLIKELY\<close> is the
  generic error of the protocol.
\<close>

definition BT_ATT_ERR_INVALID_OFFSET :: int where "BT_ATT_ERR_INVALID_OFFSET = 0x07"

definition BT_ATT_ERR_UNLIKELY :: int where "BT_ATT_ERR_UNLIKELY = 0x0e"

definition BT_GATT_ERR :: "int \<Rightarrow> int" where
  "BT_GATT_ERR e = - e"

text \<open>The fields of the payload as the function reads them.\<close>

definition payload_binding :: "payload_layout \<Rightarrow> memory \<Rightarrow> zmk_behavior_binding" where
  "payload_binding L m =
     \<lparr>behavior_dev = c_string m (behavior_dev_offset L) (dev_len L),
      param1 = le_word (load m (param1_off L) 4),
      param2 = le_word (load m (param2_off L) 4)\<rparr>"

definition payload_event :: "payload_layout \<Rightarrow> memory \<Rightarrow> int \<Rightarrow> zmk_behavior_binding_event" where
  "payload_event L m now =
     \<lparr>position = le_word (load m (position_off L) (position_len L)), timestamp = now\<rparr>"

definition payload_state :: "payload_layout \<Rightarrow> memory \<Rightarrow> byte" where
  "payload_state L m = m (state_off L)"

text \<open>
  \<^verbatim>\<open>split_svc_run_behavior\<close>. \<open>now\<close> is the value of \<^verbatim>\<open>k_uptime_get()\<close>. The result is the
  \<^verbatim>\<open>ssize_t\<close> that the function returns, with the new state.

  \<^item> \<^verbatim>\<open>uint16_t end_addr = offset + len\<close> is an addition of 16-bit words.
  \<^item> \<^verbatim>\<open>memcpy(payload + offset, buf, len)\<close>: \<^verbatim>\<open>payload\<close> points to a
    \<^verbatim>\<open>struct zmk_split_run_behavior_payload\<close>, so \<^verbatim>\<open>payload + offset\<close> is \<open>offset\<close> times
    the size of the structure behind the start of \<^verbatim>\<open>behavior_run_payload\<close>.
  \<^item> \<^verbatim>\<open>payload->behavior_dev[end_addr - behavior_dev_offset - 1]\<close> is the byte at
    \<open>behavior_dev_offset + (end_addr - behavior_dev_offset - 1)\<close>; the subtraction is
    evaluated only where \<open>end_addr\<close> is greater than the size of the data.
\<close>

definition split_svc_run_behavior ::
  "payload_layout \<Rightarrow> behaviors \<Rightarrow> int \<Rightarrow> split_svc \<Rightarrow> byte list \<Rightarrow> 16 word \<Rightarrow> 16 word
     \<Rightarrow> int \<times> split_svc" where
  "split_svc_run_behavior L bhv now s buf len offset =
     (let end_addr = offset + len
      in if unat end_addr > payload_size L then
           (BT_GATT_ERR BT_ATT_ERR_INVALID_OFFSET, s)
         else
           let m = memcpy (behavior_run_payload s) (unat offset * payload_size L) buf (unat len);
               s1 = s\<lparr>behavior_run_payload := m\<rparr>
           in if unat end_addr > data_size L \<and>
                 m (behavior_dev_offset L + (unat end_addr - behavior_dev_offset L - 1)) = 0
              then
                let binding = payload_binding L m;
                    event = payload_event L m now;
                    pressed = (payload_state L m > 0);
                    err = (if pressed then behavior_keymap_binding_pressed bhv binding event
                           else behavior_keymap_binding_released bhv binding event);
                    s2 = s1\<lparr>svc_events := svc_events s1 @
                            [if pressed then BindingPressed binding event
                             else BindingReleased binding event]\<rparr>
                in (int (unat len),
                    if err \<noteq> 0
                    then s2\<lparr>svc_events := svc_events s2 @
                            [LogFailedInvoke (behavior_dev binding) err]\<rparr>
                    else s2)
              else (int (unat len), s1))"

text \<open>
  \<^verbatim>\<open>split_svc_update_indicators\<close>. \<open>isz\<close> is \<^verbatim>\<open>sizeof(zmk_hid_indicators_t)\<close>. Here
  \<^verbatim>\<open>offset + len\<close> is evaluated in \<^verbatim>\<open>int\<close> and does not wrap, and the destination is
  the byte pointer \<^verbatim>\<open>(uint8_t *)&hid_indicators + offset\<close>.
\<close>

definition split_svc_update_indicators ::
  "nat \<Rightarrow> split_svc \<Rightarrow> byte list \<Rightarrow> 16 word \<Rightarrow> 16 word \<Rightarrow> int \<times> split_svc" where
  "split_svc_update_indicators isz s buf len offset =
     (if unat offset + unat len > isz then
        (BT_GATT_ERR BT_ATT_ERR_INVALID_OFFSET, s)
      else
        (int (unat len),
         s\<lparr>hid_indicators := memcpy (hid_indicators s) (unat offset) buf (unat len),
           indicators_work := True\<rparr>))"

text \<open>The state at start-up: static storage is zeroed and nothing has happened yet.\<close>

definition split_svc_init :: split_svc where
  "split_svc_init =
     \<lparr>behavior_run_payload = (\<lambda>_. 0), hid_indicators = (\<lambda>_. 0),
      indicators_work = False, svc_events = []\<rparr>"

text \<open>The number of behavior invocations among the events.\<close>

fun is_dispatch :: "svc_event \<Rightarrow> bool" where
  "is_dispatch (BindingPressed _ _) = True"
| "is_dispatch (BindingReleased _ _) = True"
| "is_dispatch (LogFailedInvoke _ _) = False"

definition dispatches :: "svc_event list \<Rightarrow> nat" where
  "dispatches es = length (filter is_dispatch es)"

text \<open>Both entry points of the collaborator answer \<open>err\<close>.\<close>

definition behaviors_return :: "int \<Rightarrow> behaviors" where
  "behaviors_return err =
     \<lparr>behavior_keymap_binding_pressed = (\<lambda>_ _. err),
      behavior_keymap_binding_released = (\<lambda>_ _. err)\<rparr>"

text \<open>
  The spec's words "all header bytes are present": every byte of the header lies in
  the range \<open>[offset, offset + length)\<close> of one of the writes made so far.
\<close>

definition header_covered :: "payload_layout \<Rightarrow> (nat \<times> nat) list \<Rightarrow> bool" where
  "header_covered L ws =
     list_all (\<lambda>i. list_ex (\<lambda>(off, n). off \<le> i \<and> i < off + n) ws) [0..<data_size L]"

text \<open>
  The message of the scenario, for \<open>spec_layout\<close>: position 5, param1 10, param2 0,
  state 1 and the identifier \<open>foo\<close> with its terminator; \<open>chunk1\<close> is its bytes 0 to 9
  and \<open>chunk2\<close> its bytes 10 to 14.
\<close>

definition chunk1 :: "byte list" where
  "chunk1 = [5, 0, 10, 0, 0, 0, 0, 0, 0, 0]"

definition chunk2 :: "byte list" where
  "chunk2 = 1 # map of_char ''foo'' @ [0]"

definition foo_message :: "byte list" where
  "foo_message = chunk1 @ chunk2"

section \<open>The work queue running the drain worker\<close>

text \<open>
  What is left to do for the worker: three attempts for each queued message, less the
  failures already counted for the head. It shrinks whenever the handler returns with
  the work item rescheduled.
\<close>

definition work_measure :: "usb_hid \<Rightarrow> nat" where
  "work_measure s = 3 * length (usb_hid_msgq s) + nat (3 - usb_hid_failed s)"

lemma handler_empty:
  "usb_hid_msgq s = [] \<Longrightarrow> usb_hid_work_handler ep s = s"
  by (simp add: usb_hid_work_handler.simps [of ep s] k_msgq_peek_def)

lemma handler_head:
  "usb_hid_msgq s = msg # rest \<Longrightarrow>
   usb_hid_work_handler ep s =
     (if fst (work_handler_body ep msg s)
      then usb_hid_work_handler ep (snd (work_handler_body ep msg s))
      else snd (work_handler_body ep msg s))"
  by (simp add: usb_hid_work_handler.simps [of ep s] k_msgq_peek_def split: prod.splits)

lemma body_success:
  "ep (hid_writes s) = 0 \<Longrightarrow>
   work_handler_body ep msg s =
     (True, s\<lparr>hid_writes := hid_writes s + 1,
              events := events s @ [HidWrite msg 0],
              usb_hid_msgq := k_msgq_get (usb_hid_msgq s),
              usb_hid_failed := 0\<rparr>)"
  by (simp add: work_handler_body_def)

lemma body_retry:
  "ep (hid_writes s) \<noteq> 0 \<Longrightarrow> usb_hid_failed s + 1 < 3 \<Longrightarrow>
   work_handler_body ep msg s =
     (False, s\<lparr>hid_writes := hid_writes s + 1,
               events := events s @ [HidWrite msg (ep (hid_writes s))],
               usb_hid_failed := usb_hid_failed s + 1,
               usb_hid_work := Some 10\<rparr>)"
  by (simp add: work_handler_body_def k_work_reschedule_def)

lemma body_drop:
  "ep (hid_writes s) \<noteq> 0 \<Longrightarrow> \<not> usb_hid_failed s + 1 < 3 \<Longrightarrow>
   work_handler_body ep msg s =
     (True, s\<lparr>hid_writes := hid_writes s + 1,
              events := events s @ [HidWrite msg (ep (hid_writes s)),
                                    LogDropped (usb_hid_failed s + 1)],
              usb_hid_failed := 0,
              usb_hid_msgq := k_msgq_get (usb_hid_msgq s)\<rparr>)"
  by (simp add: work_handler_body_def)

lemma body_cases:
  obtains (success) "ep (hid_writes s) = 0"
  | (retry) "ep (hid_writes s) \<noteq> 0" "usb_hid_failed s + 1 < 3"
  | (drop) "ep (hid_writes s) \<noteq> 0" "\<not> usb_hid_failed s + 1 < 3"
  by blast

lemma handler_backoff_decreases:
  "usb_hid_work s = None \<Longrightarrow> usb_hid_work (usb_hid_work_handler ep s) \<noteq> None \<Longrightarrow>
   work_measure (usb_hid_work_handler ep s) < work_measure s"
proof (induction "length (usb_hid_msgq s)" arbitrary: s)
  case 0
  then show ?case by (simp add: handler_empty)
next
  case (Suc n)
  then obtain msg rest where q: "usb_hid_msgq s = msg # rest" and n: "n = length rest"
    by (cases "usb_hid_msgq s") auto
  note unfold = handler_head [OF q, of ep]
  show ?case
  proof (cases ep s rule: body_cases)
    case success
    let ?n = "snd (work_handler_body ep msg s)"
    have eq: "usb_hid_work_handler ep s = usb_hid_work_handler ep ?n"
      using unfold by (simp add: body_success [of ep s msg, OF success])
    have "work_measure (usb_hid_work_handler ep ?n) < work_measure ?n"
      using Suc.hyps(1) [of ?n] Suc.prems eq n q
      by (simp add: body_success [of ep s msg, OF success] k_msgq_get_def)
    moreover have "work_measure ?n \<le> work_measure s"
      using q by (simp add: body_success [of ep s msg, OF success] work_measure_def k_msgq_get_def)
    ultimately show ?thesis using eq by simp
  next
    case retry
    have "usb_hid_work_handler ep s = snd (work_handler_body ep msg s)"
      using unfold by (simp add: body_retry [of ep s msg, OF retry])
    then show ?thesis using retry by (simp add: body_retry [of ep s msg, OF retry] work_measure_def)
  next
    case drop
    let ?n = "snd (work_handler_body ep msg s)"
    have eq: "usb_hid_work_handler ep s = usb_hid_work_handler ep ?n"
      using unfold by (simp add: body_drop [of ep s msg, OF drop])
    have "work_measure (usb_hid_work_handler ep ?n) < work_measure ?n"
      using Suc.hyps(1) [of ?n] Suc.prems eq n q
      by (simp add: body_drop [of ep s msg, OF drop] k_msgq_get_def)
    moreover have "work_measure ?n \<le> work_measure s"
      using q by (simp add: body_drop [of ep s msg, OF drop] work_measure_def k_msgq_get_def)
    ultimately show ?thesis using eq by simp
  qed
qed

text \<open>
  The work queue: a pending work item is taken off the queue and its handler runs;
  when the handler has rescheduled the item, it runs again (after the delay, or earlier
  when \<^verbatim>\<open>in_ready_cb\<close> fires). \<open>run_worker\<close> follows the item until it is no longer
  pending.
\<close>

function run_worker :: "(nat \<Rightarrow> int) \<Rightarrow> usb_hid \<Rightarrow> usb_hid" where
  "run_worker ep s =
     (let s' = usb_hid_work_handler ep (s\<lparr>usb_hid_work := None\<rparr>)
      in if usb_hid_work s' = None then s' else run_worker ep s')"
  by pat_completeness auto
termination
proof (relation "measure (\<lambda>(ep, s). work_measure s)")
  show "wf (measure (\<lambda>(ep, s). work_measure s))" by simp
next
  fix ep :: "nat \<Rightarrow> int" and s x :: usb_hid
  assume x: "x = usb_hid_work_handler ep (s\<lparr>usb_hid_work := None\<rparr>)"
    and pending: "usb_hid_work x \<noteq> None"
  have "work_measure x < work_measure (s\<lparr>usb_hid_work := None\<rparr>)"
    using handler_backoff_decreases [of "s\<lparr>usb_hid_work := None\<rparr>" ep] x pending by simp
  then show "((ep, x), (ep, s)) \<in> measure (\<lambda>(ep, s). work_measure s)"
    by (simp add: work_measure_def)
qed
declare run_worker.simps [simp del]

section \<open>Properties of the output queue\<close>

text \<open>
  C7. Before it enqueues a report, \<^verbatim>\<open>zmk_usb_hid_send_report\<close> looks at the status of the
  delivery interface. When the status is suspended it requests a wake-up and returns
  the result of that request with nothing queued. When the status is disconnected,
  error, reset or unknown it returns \<open>-ENODEV\<close> and the state is untouched. The queue
  changes only for the other statuses, and then by the report appended at its end;
  with room in the queue the report is appended and the worker scheduled.
\<close>

theorem send_report_status_check:
  "(status = USB_DC_SUSPEND \<longrightarrow>
      zmk_usb_hid_send_report mps status wakeup report len s
        = (wakeup, s\<lparr>events := events s @ [WakeupRequest]\<rparr>)) \<and>
   (status \<in> {USB_DC_DISCONNECTED, USB_DC_ERROR, USB_DC_RESET, USB_DC_UNKNOWN} \<longrightarrow>
      zmk_usb_hid_send_report mps status wakeup report len s = (- ENODEV, s)) \<and>
   (usb_hid_msgq (snd (zmk_usb_hid_send_report mps status wakeup report len s)) \<noteq> usb_hid_msgq s \<longrightarrow>
      status \<notin> {USB_DC_SUSPEND, USB_DC_DISCONNECTED, USB_DC_ERROR, USB_DC_RESET, USB_DC_UNKNOWN} \<and>
      usb_hid_msgq (snd (zmk_usb_hid_send_report mps status wakeup report len s))
        = usb_hid_msgq s @ [mk_usb_hid_msg mps report len]) \<and>
   (status \<notin> {USB_DC_SUSPEND, USB_DC_DISCONNECTED, USB_DC_ERROR, USB_DC_RESET, USB_DC_UNKNOWN} \<and>
    length (usb_hid_msgq s) < 8 \<longrightarrow>
      zmk_usb_hid_send_report mps status wakeup report len s
        = (0, s\<lparr>usb_hid_msgq := usb_hid_msgq s @ [mk_usb_hid_msg mps report len],
                usb_hid_work := k_work_schedule (usb_hid_work s) 0\<rparr>))"
  by (cases status)
     (simp_all add: zmk_usb_hid_send_report_def k_msgq_put_def msgq_max_msgs_def Let_def)

theorem send_report_status_check_witness:
  "zmk_usb_hid_send_report 8 USB_DC_SUSPEND 0 [1, 2] 2 usb_hid_start
     = (0, usb_hid_start\<lparr>events := events usb_hid_start @ [WakeupRequest]\<rparr>) \<and>
   zmk_usb_hid_send_report 8 USB_DC_DISCONNECTED 0 [1, 2] 2 usb_hid_start
     = (- ENODEV, usb_hid_start) \<and>
   zmk_usb_hid_send_report 8 USB_DC_CONFIGURED 0 [1, 2] 2 usb_hid_start
     = (0, usb_hid_start\<lparr>usb_hid_msgq := usb_hid_msgq usb_hid_start @ [mk_usb_hid_msg 8 [1, 2] 2],
               usb_hid_work := k_work_schedule (usb_hid_work usb_hid_start) 0\<rparr>)"
proof -
  have room: "length (usb_hid_msgq usb_hid_start) < 8"
    by (simp add: usb_hid_start_def)
  have "zmk_usb_hid_send_report 8 USB_DC_SUSPEND 0 [1, 2] 2 usb_hid_start
          = (0, usb_hid_start\<lparr>events := events usb_hid_start @ [WakeupRequest]\<rparr>)"
    using send_report_status_check [of USB_DC_SUSPEND 8 0 "[1, 2]" 2 usb_hid_start] by blast
  moreover have "zmk_usb_hid_send_report 8 USB_DC_DISCONNECTED 0 [1, 2] 2 usb_hid_start
          = (- ENODEV, usb_hid_start)"
    using send_report_status_check [of USB_DC_DISCONNECTED 8 0 "[1, 2]" 2 usb_hid_start] by blast
  moreover have "zmk_usb_hid_send_report 8 USB_DC_CONFIGURED 0 [1, 2] 2 usb_hid_start
     = (0, usb_hid_start\<lparr>usb_hid_msgq := usb_hid_msgq usb_hid_start @ [mk_usb_hid_msg 8 [1, 2] 2],
               usb_hid_work := k_work_schedule (usb_hid_work usb_hid_start) 0\<rparr>)"
    using send_report_status_check [of USB_DC_CONFIGURED 8 0 "[1, 2]" 2 usb_hid_start] room
    by blast
  ultimately show ?thesis by blast
qed

lemma written_append: "written (a @ b) = written a @ written b"
  by (induction a rule: written.induct) simp_all

lemma dropped_append: "dropped (a @ b) = dropped a @ dropped b"
  by (induction a rule: dropped.induct) simp_all

lemma run_worker_empty:
  "usb_hid_msgq s = [] \<Longrightarrow> run_worker ep s = s\<lparr>usb_hid_work := None\<rparr>"
  by (simp add: run_worker.simps [of ep s] handler_empty)

lemma run_worker_head:
  assumes q: "usb_hid_msgq s = msg # rest"
  shows "run_worker ep s = run_worker ep (snd (work_handler_body ep msg (s\<lparr>usb_hid_work := None\<rparr>)))"
proof -
  let ?s0 = "s\<lparr>usb_hid_work := None\<rparr>"
  let ?b = "work_handler_body ep msg ?s0"
  have q0: "usb_hid_msgq ?s0 = msg # rest" using q by simp
  note unfold = handler_head [OF q0, of ep]
  show ?thesis
  proof (cases ep ?s0 rule: body_cases)
    case success
    have w: "(snd ?b)\<lparr>usb_hid_work := None\<rparr> = snd ?b"
      by (simp add: body_success [of ep ?s0 msg, OF success])
    have "usb_hid_work_handler ep ?s0 = usb_hid_work_handler ep (snd ?b)"
      using unfold by (simp add: body_success [of ep ?s0 msg, OF success])
    then show ?thesis
      by (simp add: run_worker.simps [of ep s] run_worker.simps [of ep "snd ?b"] w)
  next
    case retry
    have "usb_hid_work_handler ep ?s0 = snd ?b"
      using unfold by (simp add: body_retry [of ep ?s0 msg, OF retry])
    moreover have "usb_hid_work (snd ?b) \<noteq> None"
      by (simp add: body_retry [of ep ?s0 msg, OF retry])
    ultimately show ?thesis
      by (auto simp add: run_worker.simps [of ep s] Let_def)
  next
    case drop
    have w: "(snd ?b)\<lparr>usb_hid_work := None\<rparr> = snd ?b"
      by (simp add: body_drop [of ep ?s0 msg, OF drop])
    have "usb_hid_work_handler ep ?s0 = usb_hid_work_handler ep (snd ?b)"
      using unfold by (simp add: body_drop [of ep ?s0 msg, OF drop])
    then show ?thesis
      by (simp add: run_worker.simps [of ep s] run_worker.simps [of ep "snd ?b"] w)
  qed
qed

lemma body_measure:
  assumes "usb_hid_msgq s = msg # rest" "0 \<le> usb_hid_failed s" "usb_hid_failed s \<le> 2"
  shows "work_measure (snd (work_handler_body ep msg s)) < work_measure s"
  using assms
  by (cases ep s rule: body_cases)
     (simp_all add: body_success [of ep s msg] body_retry [of ep s msg] body_drop [of ep s msg]
        work_measure_def k_msgq_get_def)

lemma run_worker_success:
  "\<forall>n. ep n = 0 \<Longrightarrow>
   run_worker ep s =
     s\<lparr>usb_hid_work := None,
       hid_writes := hid_writes s + length (usb_hid_msgq s),
       events := events s @ map (\<lambda>m. HidWrite m 0) (usb_hid_msgq s),
       usb_hid_msgq := [],
       usb_hid_failed := (if usb_hid_msgq s = [] then usb_hid_failed s else 0)\<rparr>"
proof (induction "usb_hid_msgq s" arbitrary: s)
  case Nil
  then show ?case by (simp add: run_worker_empty)
next
  case (Cons msg rest)
  let ?s0 = "s\<lparr>usb_hid_work := None\<rparr>"
  let ?b = "snd (work_handler_body ep msg ?s0)"
  have ok: "ep (hid_writes ?s0) = 0" using Cons.prems by simp
  have q: "usb_hid_msgq s = msg # rest" using Cons.hyps(2) by simp
  have b: "?b = ?s0\<lparr>hid_writes := hid_writes s + 1,
                     events := events s @ [HidWrite msg 0],
                     usb_hid_msgq := rest, usb_hid_failed := 0\<rparr>"
    using q by (simp add: body_success [of ep ?s0 msg, OF ok] k_msgq_get_def)
  have "run_worker ep s = run_worker ep ?b"
    by (rule run_worker_head [OF q])
  also have "\<dots> = ?b\<lparr>usb_hid_work := None,
       hid_writes := hid_writes ?b + length (usb_hid_msgq ?b),
       events := events ?b @ map (\<lambda>m. HidWrite m 0) (usb_hid_msgq ?b),
       usb_hid_msgq := [],
       usb_hid_failed := (if usb_hid_msgq ?b = [] then usb_hid_failed ?b else 0)\<rparr>"
    using Cons.hyps(1) [of ?b] Cons.prems b by simp
  finally show ?case using q by (simp add: b)
qed

lemma run_worker_success_fields:
  assumes "\<forall>n. ep n = 0"
  shows "events (run_worker ep s) = events s @ map (\<lambda>m. HidWrite m 0) (usb_hid_msgq s)"
    and "hid_writes (run_worker ep s) = hid_writes s + length (usb_hid_msgq s)"
    and "usb_hid_msgq (run_worker ep s) = []"
    and "usb_hid_work (run_worker ep s) = None"
    and "usb_hid_failed (run_worker ep s) = (if usb_hid_msgq s = [] then usb_hid_failed s else 0)"
  by (simp_all add: run_worker_success [OF assms])

lemma run_worker_fifo:
  assumes "0 \<le> usb_hid_failed s" "usb_hid_failed s \<le> 2"
  shows "\<exists>ns. length ns = length (usb_hid_msgq s) \<and>
              (\<forall>n\<in>set ns. 1 \<le> n \<and> n \<le> 3) \<and>
              (usb_hid_msgq s \<noteq> [] \<longrightarrow> int (hd ns) \<le> 3 - usb_hid_failed s) \<and>
              written (events (run_worker ep s))
                = written (events s) @ concat (map2 replicate ns (usb_hid_msgq s)) \<and>
              usb_hid_msgq (run_worker ep s) = [] \<and>
              usb_hid_work (run_worker ep s) = None"
  using assms
proof (induction "work_measure s" arbitrary: s rule: less_induct)
  case less
  show ?case
  proof (cases "usb_hid_msgq s")
    case Nil
    then show ?thesis by (simp add: run_worker_empty)
  next
    case (Cons msg rest)
    let ?s0 = "s\<lparr>usb_hid_work := None\<rparr>"
    let ?b = "snd (work_handler_body ep msg ?s0)"
    have q0: "usb_hid_msgq ?s0 = msg # rest" using Cons by simp
    have run: "run_worker ep s = run_worker ep ?b"
      by (rule run_worker_head [OF Cons])
    have "work_measure ?b < work_measure ?s0"
      using body_measure [OF q0, of ep] less.prems by simp
    then have m: "work_measure ?b < work_measure s" by (simp add: work_measure_def)
    show ?thesis
    proof (cases ep ?s0 rule: body_cases)
      case retry
      have b: "usb_hid_msgq ?b = msg # rest" "usb_hid_failed ?b = usb_hid_failed s + 1"
        "events ?b = events s @ [HidWrite msg (ep (hid_writes s))]"
        using Cons by (simp_all add: body_retry [of ep ?s0 msg, OF retry])
      have "0 \<le> usb_hid_failed ?b" "usb_hid_failed ?b \<le> 2"
        using b less.prems retry by simp_all
      from less.hyps [OF m this] obtain ns where ns:
        "length ns = length (usb_hid_msgq ?b)" "\<forall>n\<in>set ns. 1 \<le> n \<and> n \<le> 3"
        "int (hd ns) \<le> 3 - usb_hid_failed ?b"
        "written (events (run_worker ep ?b))
           = written (events ?b) @ concat (map2 replicate ns (usb_hid_msgq ?b))"
        "usb_hid_msgq (run_worker ep ?b) = []" "usb_hid_work (run_worker ep ?b) = None"
        using b(1) by auto
      from ns(1) b(1) obtain n ns' where nn: "ns = n # ns'" by (cases ns) auto
      let ?ns = "Suc n # ns'"
      have "length ?ns = length (usb_hid_msgq s)" using ns(1) b(1) nn Cons by simp
      moreover have "\<forall>k\<in>set ?ns. 1 \<le> k \<and> k \<le> 3"
        using ns(2) ns(3) nn b(2) less.prems by auto
      moreover have "int (hd ?ns) \<le> 3 - usb_hid_failed s"
        using ns(3) nn b(2) by simp
      moreover have "written (events (run_worker ep s))
                = written (events s) @ concat (map2 replicate ?ns (usb_hid_msgq s))"
        using ns(4) nn b Cons run by (simp add: written_append)
      ultimately show ?thesis using ns(5,6) run by (intro exI [of _ ?ns]) simp
    next
      case success
      have b: "usb_hid_msgq ?b = rest" "usb_hid_failed ?b = 0"
        "written (events ?b) = written (events s) @ [msg]"
        using Cons
        by (simp_all add: body_success [of ep ?s0 msg, OF success] k_msgq_get_def written_append)
      from less.hyps [OF m] b obtain ns where ns:
        "length ns = length rest" "\<forall>n\<in>set ns. 1 \<le> n \<and> n \<le> 3"
        "written (events (run_worker ep ?b))
           = written (events ?b) @ concat (map2 replicate ns rest)"
        "usb_hid_msgq (run_worker ep ?b) = []" "usb_hid_work (run_worker ep ?b) = None"
        by auto
      let ?ns = "1 # ns"
      have "length ?ns = length (usb_hid_msgq s)" using ns(1) Cons by simp
      moreover have "\<forall>k\<in>set ?ns. 1 \<le> k \<and> k \<le> 3" using ns(2) by simp
      moreover have "int (hd ?ns) \<le> 3 - usb_hid_failed s" using less.prems by simp
      moreover have "written (events (run_worker ep s))
                = written (events s) @ concat (map2 replicate ?ns (usb_hid_msgq s))"
        using ns(3) b Cons run by simp
      ultimately show ?thesis using ns(4,5) run by (intro exI [of _ ?ns]) simp
    next
      case drop
      have b: "usb_hid_msgq ?b = rest" "usb_hid_failed ?b = 0"
        "written (events ?b) = written (events s) @ [msg]"
        using Cons
        by (simp_all add: body_drop [of ep ?s0 msg, OF drop] k_msgq_get_def written_append)
      from less.hyps [OF m] b obtain ns where ns:
        "length ns = length rest" "\<forall>n\<in>set ns. 1 \<le> n \<and> n \<le> 3"
        "written (events (run_worker ep ?b))
           = written (events ?b) @ concat (map2 replicate ns rest)"
        "usb_hid_msgq (run_worker ep ?b) = []" "usb_hid_work (run_worker ep ?b) = None"
        by auto
      let ?ns = "1 # ns"
      have "length ?ns = length (usb_hid_msgq s)" using ns(1) Cons by simp
      moreover have "\<forall>k\<in>set ?ns. 1 \<le> k \<and> k \<le> 3" using ns(2) by simp
      moreover have "int (hd ?ns) \<le> 3 - usb_hid_failed s" using less.prems by simp
      moreover have "written (events (run_worker ep s))
                = written (events s) @ concat (map2 replicate ?ns (usb_hid_msgq s))"
        using ns(3) b Cons run by simp
      ultimately show ?thesis using ns(4,5) run by (intro exI [of _ ?ns]) simp
    qed
  qed
qed

lemma send_report_room:
  "status \<notin> {USB_DC_SUSPEND, USB_DC_DISCONNECTED, USB_DC_ERROR, USB_DC_RESET, USB_DC_UNKNOWN} \<Longrightarrow>
   length (usb_hid_msgq s) < 8 \<Longrightarrow>
   zmk_usb_hid_send_report mps status wakeup report len s
        = (0, s\<lparr>usb_hid_msgq := usb_hid_msgq s @ [mk_usb_hid_msg mps report len],
                usb_hid_work := k_work_schedule (usb_hid_work s) 0\<rparr>)"
  by (cases status)
     (simp_all add: zmk_usb_hid_send_report_def k_msgq_put_def msgq_max_msgs_def Let_def)

lemma send_reports_room:
  "status \<notin> {USB_DC_SUSPEND, USB_DC_DISCONNECTED, USB_DC_ERROR, USB_DC_RESET, USB_DC_UNKNOWN} \<Longrightarrow>
   length (usb_hid_msgq s) + length rs \<le> 8 \<Longrightarrow>
   usb_hid_msgq (send_reports mps status wakeup rs s)
     = usb_hid_msgq s @ map (\<lambda>(r, l). mk_usb_hid_msg mps r l) rs \<and>
   usb_hid_failed (send_reports mps status wakeup rs s) = usb_hid_failed s \<and>
   hid_writes (send_reports mps status wakeup rs s) = hid_writes s \<and>
   events (send_reports mps status wakeup rs s) = events s"
proof (induction rs arbitrary: s)
  case Nil
  then show ?case by simp
next
  case (Cons a rs)
  obtain r l where a: "a = (r, l)" by (cases a)
  have room: "length (usb_hid_msgq s) < 8" using Cons.prems(2) by simp
  let ?s1 = "snd (zmk_usb_hid_send_report mps status wakeup r l s)"
  have s1: "?s1 = s\<lparr>usb_hid_msgq := usb_hid_msgq s @ [mk_usb_hid_msg mps r l],
                usb_hid_work := k_work_schedule (usb_hid_work s) 0\<rparr>"
    by (simp add: send_report_room [OF Cons.prems(1) room])
  have "length (usb_hid_msgq ?s1) + length rs \<le> 8"
    using Cons.prems(2) by (simp add: s1)
  from Cons.IH [OF Cons.prems(1) this] show ?case
    by (simp add: a s1)
qed

text \<open>
  C9. The queue is never reordered and only its head is ever removed. Whatever the
  delivery interface answers, a run of the worker from a state with a counter between
  0 and 2 attempts the queued messages in queue order, each of them at least once and
  at most three times in a row, none skipped, and ends with an empty queue and an idle
  worker. In particular, after \<open>N \<le> 8\<close> reports have been enqueued from the start
  state while the interface is ready, a run with an interface that always succeeds
  makes exactly \<open>N\<close> writes, one per report in the order of the enqueueing, and leaves
  the queue empty, the worker idle and the counter 0.
\<close>

theorem output_queue_fifo:
  "(0 \<le> usb_hid_failed s \<and> usb_hid_failed s \<le> 2 \<longrightarrow>
      (\<exists>ns. length ns = length (usb_hid_msgq s) \<and>
            (\<forall>n\<in>set ns. 1 \<le> n \<and> n \<le> 3) \<and>
            written (events (run_worker ep s))
              = written (events s) @ concat (map2 replicate ns (usb_hid_msgq s)) \<and>
            usb_hid_msgq (run_worker ep s) = [] \<and>
            usb_hid_work (run_worker ep s) = None)) \<and>
   (length rs \<le> 8 \<and>
    status \<notin> {USB_DC_SUSPEND, USB_DC_DISCONNECTED, USB_DC_ERROR, USB_DC_RESET, USB_DC_UNKNOWN} \<longrightarrow>
      (let s1 = send_reports mps status wakeup rs usb_hid_start;
           s2 = run_worker (\<lambda>_. 0) s1
       in usb_hid_msgq s1 = map (\<lambda>(r, l). mk_usb_hid_msg mps r l) rs \<and>
          events s2 = map (\<lambda>(r, l). HidWrite (mk_usb_hid_msg mps r l) 0) rs \<and>
          hid_writes s2 = length rs \<and>
          usb_hid_msgq s2 = [] \<and>
          usb_hid_work s2 = None \<and>
          usb_hid_failed s2 = 0))"
proof (intro conjI impI)
  assume "0 \<le> usb_hid_failed s \<and> usb_hid_failed s \<le> 2"
  then have "0 \<le> usb_hid_failed s" "usb_hid_failed s \<le> 2" by simp_all
  from run_worker_fifo [OF this, of ep]
  show "\<exists>ns. length ns = length (usb_hid_msgq s) \<and>
            (\<forall>n\<in>set ns. 1 \<le> n \<and> n \<le> 3) \<and>
            written (events (run_worker ep s))
              = written (events s) @ concat (map2 replicate ns (usb_hid_msgq s)) \<and>
            usb_hid_msgq (run_worker ep s) = [] \<and>
            usb_hid_work (run_worker ep s) = None"
    by blast
next
  assume a: "length rs \<le> 8 \<and>
    status \<notin> {USB_DC_SUSPEND, USB_DC_DISCONNECTED, USB_DC_ERROR, USB_DC_RESET, USB_DC_UNKNOWN}"
  let ?s1 = "send_reports mps status wakeup rs usb_hid_start"
  have "length (usb_hid_msgq usb_hid_start) + length rs \<le> 8"
    using a by (simp add: usb_hid_start_def)
  from send_reports_room [OF conjunct2 [OF a] this, of mps wakeup]
  have s1: "usb_hid_msgq ?s1 = map (\<lambda>(r, l). mk_usb_hid_msg mps r l) rs"
    "usb_hid_failed ?s1 = 0" "hid_writes ?s1 = 0" "events ?s1 = []"
    by (simp_all add: usb_hid_start_def)
  have "\<forall>n. (\<lambda>_. 0::int) n = 0" by simp
  note run_worker_success_fields [OF this, of ?s1, unfolded s1]
  then show "let s1 = ?s1; s2 = run_worker (\<lambda>_. 0) s1
       in usb_hid_msgq s1 = map (\<lambda>(r, l). mk_usb_hid_msg mps r l) rs \<and>
          events s2 = map (\<lambda>(r, l). HidWrite (mk_usb_hid_msg mps r l) 0) rs \<and>
          hid_writes s2 = length rs \<and>
          usb_hid_msgq s2 = [] \<and>
          usb_hid_work s2 = None \<and>
          usb_hid_failed s2 = 0"
    by (simp add: s1 Let_def split_def comp_def)
qed

theorem output_queue_fifo_witness:
  "(0 \<le> usb_hid_failed two_queued \<and> usb_hid_failed two_queued \<le> 2) \<and>
   (\<exists>ns. length ns = length (usb_hid_msgq two_queued) \<and>
         (\<forall>n\<in>set ns. 1 \<le> n \<and> n \<le> 3) \<and>
         written (events (run_worker (\<lambda>n. if n = 0 then - 1 else 0) two_queued))
           = written (events two_queued) @ concat (map2 replicate ns (usb_hid_msgq two_queued)) \<and>
         usb_hid_msgq (run_worker (\<lambda>n. if n = 0 then - 1 else 0) two_queued) = [] \<and>
         usb_hid_work (run_worker (\<lambda>n. if n = 0 then - 1 else 0) two_queued) = None) \<and>
   (length [([1, 2], 2), ([3 :: byte], 1 :: nat)] \<le> 8 \<and>
    USB_DC_CONFIGURED \<notin> {USB_DC_SUSPEND, USB_DC_DISCONNECTED, USB_DC_ERROR, USB_DC_RESET, USB_DC_UNKNOWN}) \<and>
   (let s1 = send_reports 8 USB_DC_CONFIGURED 0 [([1, 2], 2), ([3], 1)] usb_hid_start;
        s2 = run_worker (\<lambda>_. 0) s1
    in usb_hid_msgq s1 = map (\<lambda>(r, l). mk_usb_hid_msg 8 r l) [([1, 2], 2), ([3], 1)] \<and>
       events s2 = map (\<lambda>(r, l). HidWrite (mk_usb_hid_msg 8 r l) 0) [([1, 2], 2), ([3], 1)] \<and>
       hid_writes s2 = length [([1, 2], 2), ([3 :: byte], 1 :: nat)] \<and>
       usb_hid_msgq s2 = [] \<and>
       usb_hid_work s2 = None \<and>
       usb_hid_failed s2 = 0)"
proof -
  have h1: "0 \<le> usb_hid_failed two_queued \<and> usb_hid_failed two_queued \<le> 2"
    by (simp add: two_queued_def usb_hid_start_def)
  have h2: "length [([1, 2], 2), ([3 :: byte], 1 :: nat)] \<le> 8 \<and>
    USB_DC_CONFIGURED \<notin> {USB_DC_SUSPEND, USB_DC_DISCONNECTED, USB_DC_ERROR, USB_DC_RESET, USB_DC_UNKNOWN}"
    by simp
  from output_queue_fifo [of two_queued "\<lambda>n. if n = 0 then - 1 else 0"
      "[([1, 2], 2), ([3], 1)]" USB_DC_CONFIGURED 8 0] h1 h2
  show ?thesis by blast
qed

text \<open>
  C5, as amended. When the queue already holds its eight messages and the status lets
  the sender enqueue, \<^verbatim>\<open>k_msgq_put\<close> fails without blocking, the sender logs the
  failure and returns 0 to its caller; nothing is enqueued, the queue is unchanged and
  the worker is not scheduled.
\<close>

theorem send_report_queue_full:
  "status \<notin> {USB_DC_SUSPEND, USB_DC_DISCONNECTED, USB_DC_ERROR, USB_DC_RESET, USB_DC_UNKNOWN} \<Longrightarrow>
   length (usb_hid_msgq s) = 8 \<Longrightarrow>
   zmk_usb_hid_send_report mps status wakeup report len s
     = (0, s\<lparr>events := events s @ [LogQueueFull]\<rparr>)"
  by (cases status)
     (simp_all add: zmk_usb_hid_send_report_def k_msgq_put_def msgq_max_msgs_def Let_def ENOMSG_def)

theorem send_report_queue_full_witness:
  "USB_DC_CONFIGURED \<notin> {USB_DC_SUSPEND, USB_DC_DISCONNECTED, USB_DC_ERROR, USB_DC_RESET, USB_DC_UNKNOWN} \<and>
   length (usb_hid_msgq full_queue) = 8 \<and>
   zmk_usb_hid_send_report 8 USB_DC_CONFIGURED 0 [2] 1 full_queue
     = (0, full_queue\<lparr>events := events full_queue @ [LogQueueFull]\<rparr>)"
proof -
  have h1: "USB_DC_CONFIGURED \<notin> {USB_DC_SUSPEND, USB_DC_DISCONNECTED, USB_DC_ERROR, USB_DC_RESET, USB_DC_UNKNOWN}"
    by simp
  have h2: "length (usb_hid_msgq full_queue) = 8"
    by (simp add: full_queue_def)
  from send_report_queue_full [OF h1 h2, of 8 0 "[2]" 1] h1 h2 show ?thesis by blast
qed

text \<open>
  C5 as stated says that the caller sees the rejection as an error result. On a full
  queue the sender returns 0, the same value as for a report that was enqueued.
\<close>

theorem send_report_queue_full_counterexample:
  "length (usb_hid_msgq full_queue) = 8 \<and>
   fst (zmk_usb_hid_send_report 8 USB_DC_CONFIGURED 0 [2] 1 full_queue) = 0 \<and>
   fst (zmk_usb_hid_send_report 8 USB_DC_CONFIGURED 0 [2] 1 usb_hid_start) = 0"
  by (simp add: zmk_usb_hid_send_report_def k_msgq_put_def msgq_max_msgs_def Let_def
      full_queue_def usb_hid_start_def ENOMSG_def)

lemma run_worker_always_fails:
  assumes fails: "\<forall>n. ep n \<noteq> 0"
    and "0 \<le> usb_hid_failed s" "usb_hid_failed s \<le> 2"
  shows "written (events (run_worker ep s))
           = written (events s) @
             (case usb_hid_msgq s of [] \<Rightarrow> []
              | m # r \<Rightarrow> replicate (nat (3 - usb_hid_failed s)) m @ concat (map (replicate 3) r)) \<and>
         dropped (events (run_worker ep s))
           = dropped (events s) @ replicate (length (usb_hid_msgq s)) 3 \<and>
         usb_hid_msgq (run_worker ep s) = [] \<and>
         usb_hid_work (run_worker ep s) = None \<and>
         usb_hid_failed (run_worker ep s)
           = (if usb_hid_msgq s = [] then usb_hid_failed s else 0)"
  using assms(2,3)
proof (induction "work_measure s" arbitrary: s rule: less_induct)
  case less
  show ?case
  proof (cases "usb_hid_msgq s")
    case Nil
    then show ?thesis by (simp add: run_worker_empty)
  next
    case (Cons msg rest)
    let ?s0 = "s\<lparr>usb_hid_work := None\<rparr>"
    let ?b = "snd (work_handler_body ep msg ?s0)"
    have q0: "usb_hid_msgq ?s0 = msg # rest" using Cons by simp
    have run: "run_worker ep s = run_worker ep ?b"
      by (rule run_worker_head [OF Cons])
    have "work_measure ?b < work_measure ?s0"
      using body_measure [OF q0, of ep] less.prems by simp
    then have m: "work_measure ?b < work_measure s" by (simp add: work_measure_def)
    have err: "ep (hid_writes ?s0) \<noteq> 0" using fails by simp
    show ?thesis
    proof (cases "usb_hid_failed ?s0 + 1 < 3")
      case True
      have b: "usb_hid_msgq ?b = msg # rest" "usb_hid_failed ?b = usb_hid_failed s + 1"
        "written (events ?b) = written (events s) @ [msg]"
        "dropped (events ?b) = dropped (events s)"
        using Cons
        by (simp_all add: body_retry [of ep ?s0 msg, OF err True] written_append dropped_append)
      have f: "0 \<le> usb_hid_failed ?b" "usb_hid_failed ?b \<le> 2"
        using b less.prems True by simp_all
      have "replicate (nat (3 - usb_hid_failed s)) msg
              = msg # replicate (nat (3 - (usb_hid_failed s + 1))) msg"
      proof -
        have "nat (3 - usb_hid_failed s) = Suc (nat (3 - (usb_hid_failed s + 1)))"
          using True by simp
        then show ?thesis by simp
      qed
      with less.hyps [OF m f] b Cons run show ?thesis by simp
    next
      case False
      then have three: "usb_hid_failed s + 1 = 3" using less.prems by simp
      have b: "usb_hid_msgq ?b = rest" "usb_hid_failed ?b = 0"
        "written (events ?b) = written (events s) @ [msg]"
        "dropped (events ?b) = dropped (events s) @ [3]"
        using Cons three
        by (simp_all add: body_drop [of ep ?s0 msg, OF err False] k_msgq_get_def
            written_append dropped_append)
      have f: "0 \<le> usb_hid_failed ?b" "usb_hid_failed ?b \<le> 2"
        using b by simp_all
      note ih = less.hyps [OF m f]
      have one: "nat (3 - usb_hid_failed s) = 1"
        using three by simp
      have w: "written (events (run_worker ep ?b))
                = written (events s) @ [msg] @ concat (map (replicate 3) rest)"
        using ih b by (cases rest) simp_all
      have d: "dropped (events (run_worker ep ?b))
                = dropped (events s) @ [3] @ replicate (length rest) 3"
        using ih b by simp
      have "written (events (run_worker ep s))
           = written (events s) @
             (case usb_hid_msgq s of [] \<Rightarrow> []
              | m # r \<Rightarrow> replicate (nat (3 - usb_hid_failed s)) m @ concat (map (replicate 3) r))"
        using w run Cons one by simp
      moreover have "dropped (events (run_worker ep s))
           = dropped (events s) @ replicate (length (usb_hid_msgq s)) 3"
        using d run Cons by simp
      moreover have "usb_hid_msgq (run_worker ep s) = []" "usb_hid_work (run_worker ep s) = None"
        using ih run by simp_all
      moreover have "usb_hid_failed (run_worker ep s)
           = (if usb_hid_msgq s = [] then usb_hid_failed s else 0)"
        using ih run b Cons by simp
      ultimately show ?thesis by blast
    qed
  qed
qed

text \<open>
  C4. One round of the worker's loop on the head \<open>msg\<close>: when the write fails and the
  incremented counter is below 3, the worker reschedules itself after 10 ms and
  returns, the head still in the queue; when the write fails and the incremented
  counter reaches 3, the drop is logged, the head is removed and the counter reset to
  0; when the write succeeds, the head is removed and the counter reset to 0. After a
  removal the loop goes on with the remaining messages. With an interface that fails
  every attempt, a run of the worker from a counter of 0 makes exactly three attempts
  on each message, in queue order, drops every message with a logged count of 3, and
  ends with an empty queue and a counter of 0.
\<close>

theorem drain_retry_then_drop:
  "(ep (hid_writes s) \<noteq> 0 \<and> usb_hid_failed s + 1 < 3 \<longrightarrow>
      work_handler_body ep msg s =
        (False, s\<lparr>hid_writes := hid_writes s + 1,
                  events := events s @ [HidWrite msg (ep (hid_writes s))],
                  usb_hid_failed := usb_hid_failed s + 1,
                  usb_hid_work := Some 10\<rparr>)) \<and>
   (ep (hid_writes s) \<noteq> 0 \<and> usb_hid_failed s + 1 = 3 \<and> usb_hid_msgq s = msg # rest \<longrightarrow>
      work_handler_body ep msg s =
        (True, s\<lparr>hid_writes := hid_writes s + 1,
                 events := events s @ [HidWrite msg (ep (hid_writes s)), LogDropped 3],
                 usb_hid_failed := 0,
                 usb_hid_msgq := rest\<rparr>)) \<and>
   (ep (hid_writes s) = 0 \<and> usb_hid_msgq s = msg # rest \<longrightarrow>
      work_handler_body ep msg s =
        (True, s\<lparr>hid_writes := hid_writes s + 1,
                 events := events s @ [HidWrite msg 0],
                 usb_hid_msgq := rest,
                 usb_hid_failed := 0\<rparr>)) \<and>
   (usb_hid_msgq s = msg # rest \<longrightarrow>
      usb_hid_work_handler ep s =
        (if fst (work_handler_body ep msg s)
         then usb_hid_work_handler ep (snd (work_handler_body ep msg s))
         else snd (work_handler_body ep msg s))) \<and>
   ((\<forall>n. ep n \<noteq> 0) \<and> usb_hid_failed s = 0 \<longrightarrow>
      written (events (run_worker ep s))
        = written (events s) @ concat (map (replicate 3) (usb_hid_msgq s)) \<and>
      dropped (events (run_worker ep s))
        = dropped (events s) @ replicate (length (usb_hid_msgq s)) 3 \<and>
      usb_hid_msgq (run_worker ep s) = [] \<and>
      usb_hid_work (run_worker ep s) = None \<and>
      usb_hid_failed (run_worker ep s) = 0)"
proof (intro conjI impI)
  assume "ep (hid_writes s) \<noteq> 0 \<and> usb_hid_failed s + 1 < 3"
  then show "work_handler_body ep msg s =
        (False, s\<lparr>hid_writes := hid_writes s + 1,
                  events := events s @ [HidWrite msg (ep (hid_writes s))],
                  usb_hid_failed := usb_hid_failed s + 1,
                  usb_hid_work := Some 10\<rparr>)"
    by (simp add: body_retry [of ep s msg])
next
  assume "ep (hid_writes s) \<noteq> 0 \<and> usb_hid_failed s + 1 = 3 \<and> usb_hid_msgq s = msg # rest"
  then show "work_handler_body ep msg s =
        (True, s\<lparr>hid_writes := hid_writes s + 1,
                 events := events s @ [HidWrite msg (ep (hid_writes s)), LogDropped 3],
                 usb_hid_failed := 0,
                 usb_hid_msgq := rest\<rparr>)"
    by (simp add: body_drop [of ep s msg] k_msgq_get_def)
next
  assume "ep (hid_writes s) = 0 \<and> usb_hid_msgq s = msg # rest"
  then show "work_handler_body ep msg s =
        (True, s\<lparr>hid_writes := hid_writes s + 1,
                 events := events s @ [HidWrite msg 0],
                 usb_hid_msgq := rest,
                 usb_hid_failed := 0\<rparr>)"
    by (simp add: body_success [of ep s msg] k_msgq_get_def)
next
  assume "usb_hid_msgq s = msg # rest"
  then show "usb_hid_work_handler ep s =
        (if fst (work_handler_body ep msg s)
         then usb_hid_work_handler ep (snd (work_handler_body ep msg s))
         else snd (work_handler_body ep msg s))"
    by (rule handler_head)
next
  assume a: "(\<forall>n. ep n \<noteq> 0) \<and> usb_hid_failed s = 0"
  then have f: "\<forall>n. ep n \<noteq> 0" "0 \<le> usb_hid_failed s" "usb_hid_failed s \<le> 2" by simp_all
  have c: "(case usb_hid_msgq s of [] \<Rightarrow> []
            | m # r \<Rightarrow> replicate (nat (3 - usb_hid_failed s)) m @ concat (map (replicate 3) r))
           = concat (map (replicate 3) (usb_hid_msgq s))"
    using a by (cases "usb_hid_msgq s") (simp_all add: numeral_3_eq_3)
  note r = run_worker_always_fails [OF f, unfolded c]
  show "written (events (run_worker ep s))
        = written (events s) @ concat (map (replicate 3) (usb_hid_msgq s))"
    using r by blast
  show "dropped (events (run_worker ep s))
        = dropped (events s) @ replicate (length (usb_hid_msgq s)) 3"
    using r by blast
  show "usb_hid_msgq (run_worker ep s) = []" using r by blast
  show "usb_hid_work (run_worker ep s) = None" using r by blast
  show "usb_hid_failed (run_worker ep s) = 0" using r a by simp
qed

theorem drain_retry_then_drop_witness:
  "work_handler_body (\<lambda>_. - 1) (mk_usb_hid_msg 8 [1, 2] 2) two_queued =
     (False, two_queued\<lparr>hid_writes := hid_writes two_queued + 1,
                events := events two_queued @
                  [HidWrite (mk_usb_hid_msg 8 [1, 2] 2) ((\<lambda>_. - 1) (hid_writes two_queued))],
                usb_hid_failed := usb_hid_failed two_queued + 1,
                usb_hid_work := Some 10\<rparr>) \<and>
   work_handler_body (\<lambda>_. - 1) (mk_usb_hid_msg 8 [1, 2] 2) (two_queued\<lparr>usb_hid_failed := 2\<rparr>) =
     (True, two_queued\<lparr>usb_hid_failed := 2\<rparr>
              \<lparr>hid_writes := hid_writes (two_queued\<lparr>usb_hid_failed := 2\<rparr>) + 1,
               events := events (two_queued\<lparr>usb_hid_failed := 2\<rparr>) @
                 [HidWrite (mk_usb_hid_msg 8 [1, 2] 2)
                    ((\<lambda>_. - 1) (hid_writes (two_queued\<lparr>usb_hid_failed := 2\<rparr>))), LogDropped 3],
               usb_hid_failed := 0,
               usb_hid_msgq := [mk_usb_hid_msg 8 [3] 1]\<rparr>) \<and>
   work_handler_body (\<lambda>_. 0) (mk_usb_hid_msg 8 [1, 2] 2) two_queued =
     (True, two_queued\<lparr>hid_writes := hid_writes two_queued + 1,
               events := events two_queued @ [HidWrite (mk_usb_hid_msg 8 [1, 2] 2) 0],
               usb_hid_msgq := [mk_usb_hid_msg 8 [3] 1],
               usb_hid_failed := 0\<rparr>) \<and>
   written (events (run_worker (\<lambda>_. - 1) two_queued))
     = written (events two_queued) @ concat (map (replicate 3) (usb_hid_msgq two_queued)) \<and>
   dropped (events (run_worker (\<lambda>_. - 1) two_queued))
     = dropped (events two_queued) @ replicate (length (usb_hid_msgq two_queued)) 3 \<and>
   usb_hid_msgq (run_worker (\<lambda>_. - 1) two_queued) = [] \<and>
   usb_hid_work (run_worker (\<lambda>_. - 1) two_queued) = None \<and>
   usb_hid_failed (run_worker (\<lambda>_. - 1) two_queued) = 0"
proof -
  let ?m = "mk_usb_hid_msg 8 [1, 2] 2" and ?r = "[mk_usb_hid_msg 8 [3] 1]"
  let ?t = "two_queued\<lparr>usb_hid_failed := 2\<rparr>"
  have q: "usb_hid_msgq two_queued = ?m # ?r" "usb_hid_msgq ?t = ?m # ?r"
    by (simp_all add: two_queued_def)
  have f: "usb_hid_failed two_queued = 0" "usb_hid_failed ?t + 1 = 3"
    by (simp_all add: two_queued_def usb_hid_start_def)
  have h1: "(\<lambda>_. - 1 :: int) (hid_writes two_queued) \<noteq> 0 \<and> usb_hid_failed two_queued + 1 < 3"
    using f by simp
  have h2: "(\<lambda>_. - 1 :: int) (hid_writes ?t) \<noteq> 0 \<and> usb_hid_failed ?t + 1 = 3 \<and>
            usb_hid_msgq ?t = ?m # ?r"
    using f q by simp
  have h3: "(\<lambda>_. 0 :: int) (hid_writes two_queued) = 0 \<and> usb_hid_msgq two_queued = ?m # ?r"
    using q by simp
  have h5: "(\<forall>n. (\<lambda>_. - 1 :: int) n \<noteq> 0) \<and> usb_hid_failed two_queued = 0"
    using f by simp
  from drain_retry_then_drop [of "\<lambda>_. - 1" two_queued ?m ?r] h1 h5
  have a: "work_handler_body (\<lambda>_. - 1) ?m two_queued =
     (False, two_queued\<lparr>hid_writes := hid_writes two_queued + 1,
                events := events two_queued @
                  [HidWrite ?m ((\<lambda>_. - 1) (hid_writes two_queued))],
                usb_hid_failed := usb_hid_failed two_queued + 1,
                usb_hid_work := Some 10\<rparr>)"
    and e: "written (events (run_worker (\<lambda>_. - 1) two_queued))
        = written (events two_queued) @ concat (map (replicate 3) (usb_hid_msgq two_queued)) \<and>
      dropped (events (run_worker (\<lambda>_. - 1) two_queued))
        = dropped (events two_queued) @ replicate (length (usb_hid_msgq two_queued)) 3 \<and>
      usb_hid_msgq (run_worker (\<lambda>_. - 1) two_queued) = [] \<and>
      usb_hid_work (run_worker (\<lambda>_. - 1) two_queued) = None \<and>
      usb_hid_failed (run_worker (\<lambda>_. - 1) two_queued) = 0"
    by blast+
  from drain_retry_then_drop [of "\<lambda>_. - 1" ?t ?m ?r] h2
  have b: "work_handler_body (\<lambda>_. - 1) ?m ?t =
     (True, ?t\<lparr>hid_writes := hid_writes ?t + 1,
               events := events ?t @ [HidWrite ?m ((\<lambda>_. - 1) (hid_writes ?t)), LogDropped 3],
               usb_hid_failed := 0,
               usb_hid_msgq := ?r\<rparr>)"
    by blast
  from drain_retry_then_drop [of "\<lambda>_. 0" two_queued ?m ?r] h3
  have c: "work_handler_body (\<lambda>_. 0) ?m two_queued =
     (True, two_queued\<lparr>hid_writes := hid_writes two_queued + 1,
               events := events two_queued @ [HidWrite ?m 0],
               usb_hid_msgq := ?r,
               usb_hid_failed := 0\<rparr>)"
    by blast
  from a b c e show ?thesis by blast
qed

lemma send_report_fields:
  "usb_hid_failed (snd (zmk_usb_hid_send_report mps status wakeup report len s)) = usb_hid_failed s"
  "dropped (events (snd (zmk_usb_hid_send_report mps status wakeup report len s))) = dropped (events s)"
  "usb_hid_msgq (snd (zmk_usb_hid_send_report mps status wakeup report len s)) = []
     \<Longrightarrow> usb_hid_msgq s = []"
  by (cases status;
      simp add: zmk_usb_hid_send_report_def k_msgq_put_def Let_def dropped_append
           split: if_splits)+

lemma body_inv:
  assumes "failed_inv s" "usb_hid_msgq s = msg # rest"
  shows "failed_inv (snd (work_handler_body ep msg s))"
  using assms
  by (cases ep s rule: body_cases)
     (auto simp: failed_inv_def body_success [of ep s msg] body_retry [of ep s msg]
        body_drop [of ep s msg] dropped_append k_msgq_get_def)

lemma reachable_inv: "reachable s \<Longrightarrow> failed_inv s"
proof (induction rule: reachable.induct)
  case start
  show ?case by (simp add: failed_inv_def usb_hid_start_def)
next
  case (send s mps status wakeup report len)
  then show ?case
    using send_report_fields(3) [of mps status wakeup report len s]
    by (simp add: failed_inv_def send_report_fields(1,2))
next
  case (ready s)
  then show ?case by (simp add: failed_inv_def in_ready_cb_def)
next
  case (taken s)
  then show ?case by (simp add: failed_inv_def)
next
  case (round s msg ep)
  from round.hyps(2) obtain rest where "usb_hid_msgq s = msg # rest"
    by (auto simp: k_msgq_peek_def split: list.splits)
  with round.IH show ?case by (rule body_inv)
qed

lemma handler_reachable: "reachable s \<Longrightarrow> reachable (usb_hid_work_handler ep s)"
proof (induction "length (usb_hid_msgq s)" arbitrary: s)
  case 0
  then show ?case by (simp add: handler_empty)
next
  case (Suc n)
  then obtain msg rest where q: "usb_hid_msgq s = msg # rest" and n: "n = length rest"
    by (cases "usb_hid_msgq s") auto
  let ?b = "work_handler_body ep msg s"
  have r: "reachable (snd ?b)"
    using Suc.prems q by (intro reachable.round) (simp_all add: k_msgq_peek_def)
  show ?case
  proof (cases "fst ?b")
    case True
    then have "usb_hid_msgq (snd ?b) = rest"
      using q by (cases ep s rule: body_cases)
        (simp_all add: body_success [of ep s msg] body_retry [of ep s msg]
           body_drop [of ep s msg] k_msgq_get_def)
    with Suc.hyps(1) [of "snd ?b"] n r have "reachable (usb_hid_work_handler ep (snd ?b))"
      by simp
    with True show ?thesis by (simp add: handler_head [OF q])
  next
    case False
    with r show ?thesis by (simp add: handler_head [OF q])
  qed
qed

lemma run_worker_reachable: "reachable s \<Longrightarrow> reachable (run_worker ep s)"
proof (induction ep s rule: run_worker.induct)
  case (1 ep s)
  let ?s' = "usb_hid_work_handler ep (s\<lparr>usb_hid_work := None\<rparr>)"
  have r: "reachable ?s'"
    using "1.prems" by (intro handler_reachable reachable.taken)
  show ?case
  proof (cases "usb_hid_work ?s' = None")
    case True
    with r show ?thesis by (simp add: run_worker.simps [of ep s])
  next
    case False
    with "1.IH" [OF refl False r] show ?thesis
      by (auto simp add: run_worker.simps [of ep s] Let_def)
  qed
qed

text \<open>
  C10. In every state that the file's functions can reach from start-up, between calls
  and at each round of the worker's loop, the counter \<^verbatim>\<open>usb_hid_failed\<close> is between 0
  and 2, so that one more increment takes it to 3 at most; every count the drop
  message has logged is 3; and the counter is 0 whenever the queue is empty. A round of
  the loop either resets the counter to 0 or increments it by one; it increments it
  only when the write of the head failed, and then the queue is unchanged; whenever the
  round changes the queue it has removed exactly the head and the counter is 0; so
  every new head starts with a counter of 0. The results of the handler and of a run of
  the worker are reachable states again.
\<close>

theorem usb_hid_failed_range:
  assumes "reachable s"
  shows "0 \<le> usb_hid_failed s \<and> usb_hid_failed s \<le> 2 \<and> usb_hid_failed s + 1 \<le> 3 \<and>
         (\<forall>n\<in>set (dropped (events s)). n = 3) \<and>
         (usb_hid_msgq s = [] \<longrightarrow> usb_hid_failed s = 0) \<and>
         reachable (usb_hid_work_handler ep s) \<and>
         reachable (run_worker ep s) \<and>
         (usb_hid_msgq s = msg # rest \<longrightarrow>
            (let s' = snd (work_handler_body ep msg s)
             in (usb_hid_failed s' = 0 \<or> usb_hid_failed s' = usb_hid_failed s + 1) \<and>
                (usb_hid_failed s' = usb_hid_failed s + 1 \<longrightarrow>
                   ep (hid_writes s) \<noteq> 0 \<and> usb_hid_msgq s' = usb_hid_msgq s) \<and>
                (usb_hid_msgq s' \<noteq> usb_hid_msgq s \<longrightarrow>
                   usb_hid_msgq s' = rest \<and> usb_hid_failed s' = 0) \<and>
                (ep (hid_writes s) = 0 \<longrightarrow> usb_hid_msgq s' = rest \<and> usb_hid_failed s' = 0)))"
proof -
  have inv: "failed_inv s" using assms by (rule reachable_inv)
  have step: "usb_hid_msgq s = msg # rest \<longrightarrow>
            (let s' = snd (work_handler_body ep msg s)
             in (usb_hid_failed s' = 0 \<or> usb_hid_failed s' = usb_hid_failed s + 1) \<and>
                (usb_hid_failed s' = usb_hid_failed s + 1 \<longrightarrow>
                   ep (hid_writes s) \<noteq> 0 \<and> usb_hid_msgq s' = usb_hid_msgq s) \<and>
                (usb_hid_msgq s' \<noteq> usb_hid_msgq s \<longrightarrow>
                   usb_hid_msgq s' = rest \<and> usb_hid_failed s' = 0) \<and>
                (ep (hid_writes s) = 0 \<longrightarrow> usb_hid_msgq s' = rest \<and> usb_hid_failed s' = 0))"
    using inv
    by (cases ep s rule: body_cases)
       (auto simp: failed_inv_def body_success [of ep s msg] body_retry [of ep s msg]
          body_drop [of ep s msg] k_msgq_get_def Let_def)
  from inv step handler_reachable [OF assms, of ep] run_worker_reachable [OF assms, of ep]
  show ?thesis by (simp add: failed_inv_def)
qed

theorem usb_hid_failed_range_witness:
  "reachable one_queued \<and>
   usb_hid_msgq one_queued = [mk_usb_hid_msg 8 [1, 2] 2] \<and>
   0 \<le> usb_hid_failed one_queued \<and> usb_hid_failed one_queued \<le> 2 \<and>
   list_all (\<lambda>n. n = 3) (dropped (events one_queued)) \<and>
   reachable (usb_hid_work_handler (\<lambda>_. - 1) one_queued) \<and>
   reachable (run_worker (\<lambda>_. - 1) one_queued) \<and>
   (let s' = snd (work_handler_body (\<lambda>_. - 1) (mk_usb_hid_msg 8 [1, 2] 2) one_queued)
    in (usb_hid_failed s' = 0 \<or> usb_hid_failed s' = usb_hid_failed one_queued + 1) \<and>
       (usb_hid_failed s' = usb_hid_failed one_queued + 1 \<longrightarrow>
          usb_hid_msgq s' = usb_hid_msgq one_queued) \<and>
       (usb_hid_msgq s' \<noteq> usb_hid_msgq one_queued \<longrightarrow>
          usb_hid_msgq s' = [] \<and> usb_hid_failed s' = 0))"
proof -
  have r: "reachable one_queued"
    unfolding one_queued_def by (rule reachable.send [OF reachable.start])
  have q: "usb_hid_msgq one_queued = mk_usb_hid_msg 8 [1, 2] 2 # []"
    by (simp add: one_queued_def zmk_usb_hid_send_report_def k_msgq_put_def msgq_max_msgs_def
        usb_hid_start_def)
  note t = usb_hid_failed_range [OF r, of "\<lambda>_. - 1" "mk_usb_hid_msg 8 [1, 2] 2" "[]"]
  from t q r show ?thesis by (simp add: Let_def list_all_iff)
qed

section \<open>Properties of the split service\<close>

lemma memcpy_outside:
  "a < dst \<or> dst + n \<le> a \<Longrightarrow> memcpy m dst src n a = m a"
  by (auto simp: memcpy_def)

lemma memcpy_inside:
  "dst \<le> a \<Longrightarrow> a < dst + n \<Longrightarrow> memcpy m dst src n a = src ! (a - dst)"
  by (simp add: memcpy_def)

lemma no_wrap:
  "unat (offset :: 16 word) + unat (len :: 16 word) < 65536 \<Longrightarrow>
   unat (offset + len) = unat offset + unat len"
  by (simp add: unat_word_ariths)

lemma run_behavior_rejected:
  "unat (offset + len) > payload_size L \<Longrightarrow>
   split_svc_run_behavior L bhv now s buf len offset
     = (BT_GATT_ERR BT_ATT_ERR_INVALID_OFFSET, s)"
  by (simp add: split_svc_run_behavior_def)

lemma run_behavior_rejects_no_wrap:
  "unat offset + unat len > payload_size L \<Longrightarrow> unat offset + unat len < 65536 \<Longrightarrow>
   split_svc_run_behavior L bhv now s buf len offset
     = (BT_GATT_ERR BT_ATT_ERR_INVALID_OFFSET, s)"
  by (simp add: run_behavior_rejected no_wrap)

lemma run_behavior_accepted:
  assumes "unat (offset + len) \<le> payload_size L"
  shows "fst (split_svc_run_behavior L bhv now s buf len offset) = int (unat len)"
    and "behavior_run_payload (snd (split_svc_run_behavior L bhv now s buf len offset))
           = memcpy (behavior_run_payload s) (unat offset * payload_size L) buf (unat len)"
    and "hid_indicators (snd (split_svc_run_behavior L bhv now s buf len offset)) = hid_indicators s"
  using assms by (simp_all add: split_svc_run_behavior_def Let_def)

lemma run_behavior_nonzero_offset:
  assumes "unat (offset + len) \<le> payload_size L" "offset \<noteq> 0" "a < payload_size L"
  shows "behavior_run_payload (snd (split_svc_run_behavior L bhv now s buf len offset)) a
           = behavior_run_payload s a"
proof -
  have "0 < unat offset" using assms(2) by (simp add: unat_gt_0)
  then obtain k where "unat offset = Suc k" by (cases "unat offset") auto
  with assms(3) have "a < unat offset * payload_size L" by simp
  then show ?thesis
    by (simp add: run_behavior_accepted(2) [OF assms(1)] memcpy_outside)
qed

lemma run_behavior_offset_zero:
  assumes "unat len \<le> payload_size L" "length buf = unat len"
  shows "load (behavior_run_payload (snd (split_svc_run_behavior L bhv now s buf len 0)))
           0 (unat len) = buf"
    and "unat len \<le> a \<Longrightarrow>
         behavior_run_payload (snd (split_svc_run_behavior L bhv now s buf len 0)) a
           = behavior_run_payload s a"
proof -
  have acc: "unat (0 + len) \<le> payload_size L" using assms(1) by simp
  note m = run_behavior_accepted(2) [OF acc, of bhv now s buf]
  show "load (behavior_run_payload (snd (split_svc_run_behavior L bhv now s buf len 0)))
           0 (unat len) = buf"
    using assms(2) by (intro nth_equalityI) (simp_all add: m load_def memcpy_def)
  show "behavior_run_payload (snd (split_svc_run_behavior L bhv now s buf len 0)) a
           = behavior_run_payload s a" if "unat len \<le> a"
    using that by (simp add: m memcpy_def)
qed

lemma update_indicators_rejects:
  "unat offset + unat len > isz \<Longrightarrow>
   split_svc_update_indicators isz s buf len offset
     = (BT_GATT_ERR BT_ATT_ERR_INVALID_OFFSET, s)"
  by (simp add: split_svc_update_indicators_def)

lemma update_indicators_accepted:
  assumes "unat offset + unat len \<le> isz" "length buf = unat len"
  shows "fst (split_svc_update_indicators isz s buf len offset) = int (unat len)"
    and "load (hid_indicators (snd (split_svc_update_indicators isz s buf len offset)))
           (unat offset) (unat len) = buf"
    and "a < unat offset \<or> unat offset + unat len \<le> a \<Longrightarrow>
         hid_indicators (snd (split_svc_update_indicators isz s buf len offset)) a
           = hid_indicators s a"
proof -
  show "fst (split_svc_update_indicators isz s buf len offset) = int (unat len)"
    using assms(1) by (simp add: split_svc_update_indicators_def)
  show "load (hid_indicators (snd (split_svc_update_indicators isz s buf len offset)))
           (unat offset) (unat len) = buf"
    using assms by (intro nth_equalityI) (simp_all add: split_svc_update_indicators_def load_def memcpy_def)
  show "hid_indicators (snd (split_svc_update_indicators isz s buf len offset)) a
           = hid_indicators s a" if "a < unat offset \<or> unat offset + unat len \<le> a"
    using that assms(1) by (auto simp: split_svc_update_indicators_def memcpy_def)
qed

lemma invalid_offset_status:
  "BT_GATT_ERR BT_ATT_ERR_INVALID_OFFSET \<noteq> BT_GATT_ERR BT_ATT_ERR_UNLIKELY"
  "BT_GATT_ERR BT_ATT_ERR_INVALID_OFFSET < 0"
  by (simp_all add: BT_GATT_ERR_def BT_ATT_ERR_INVALID_OFFSET_def BT_ATT_ERR_UNLIKELY_def)

lemma dispatches_append: "dispatches (a @ b) = dispatches a + dispatches b"
  by (simp add: dispatches_def)

text \<open>
  C1. The claim is that an accepted write lands in the buffer at byte offset \<open>offset\<close>
  and reads back from there. The function adds the offset to a pointer to the whole
  structure, so the bytes land \<open>offset\<close> structures behind the buffer: on the zeroed
  buffer, the write of the single byte \<open>0x41\<close> at offset 1 is accepted, the byte at
  offset 1 of the buffer still reads 0, and \<open>0x41\<close> is found one structure size behind
  the start of the buffer. (\<open>run_behavior_nonzero_offset\<close>: an accepted write at any
  offset other than 0 leaves the whole buffer as it was; \<open>run_behavior_offset_zero\<close>:
  a write at offset 0 reads back.)
\<close>

theorem run_behavior_offset_is_scaled:
  "fst (split_svc_run_behavior (spec_layout 9) bhv now split_svc_init [0x41] 1 1) = 1 \<and>
   load (behavior_run_payload
          (snd (split_svc_run_behavior (spec_layout 9) bhv now split_svc_init [0x41] 1 1))) 1 1
     = [0] \<and>
   load (behavior_run_payload
          (snd (split_svc_run_behavior (spec_layout 9) bhv now split_svc_init [0x41] 1 1)))
        (1 * payload_size (spec_layout 9)) 1
     = [0x41]"
  by (simp add: split_svc_run_behavior_def spec_layout_def payload_size_def Let_def
      split_svc_init_def memcpy_def load_def behavior_dev_offset_def)

text \<open>
  The completion test as the function computes it. For every accepted write, with
  \<open>end_addr\<close> the 16-bit sum of offset and length (their sum, when that is below 65536):
  the number of behavior invocations grows by one when \<open>end_addr\<close> is greater than the
  size of the header and the byte of the buffer at \<open>end_addr - 1\<close> is NUL after the
  write, and stays as it is otherwise. That byte lies in the identifier region. A write
  whose \<open>end_addr\<close> is not past the header adds no event at all.
\<close>

lemma dispatch_iff_end_past_header_and_nul:
  assumes "unat (offset + len) \<le> payload_size L"
  shows "(let s' = snd (split_svc_run_behavior L bhv now s buf len offset);
              end_addr = unat (offset + len)
          in dispatches (svc_events s')
               = dispatches (svc_events s) +
                 (if data_size L < end_addr \<and> behavior_run_payload s' (end_addr - 1) = 0
                  then 1 else 0) \<and>
             (data_size L < end_addr \<longrightarrow>
                behavior_dev_offset L \<le> end_addr - 1 \<and> end_addr - 1 < payload_size L) \<and>
             (end_addr \<le> data_size L \<longrightarrow> svc_events s' = svc_events s)) \<and>
         (unat offset + unat len < 65536 \<longrightarrow> unat (offset + len) = unat offset + unat len)"
proof -
  have idx: "data_size L < unat (offset + len) \<Longrightarrow>
      behavior_dev_offset L + (unat (offset + len) - behavior_dev_offset L - 1)
        = unat (offset + len) - 1"
    by (simp add: behavior_dev_offset_def)
  have "behavior_dev_offset L \<le> unat (offset + len) - 1 \<and> unat (offset + len) - 1 < payload_size L"
    if "data_size L < unat (offset + len)"
    using that assms unfolding behavior_dev_offset_def by linarith
  then show ?thesis
    using assms idx
    by (auto simp: split_svc_run_behavior_def Let_def dispatches_append dispatches_def no_wrap)
qed

lemma dispatch_iff_end_past_header_and_nul_example:
  "unat (0 + 15 :: 16 word) \<le> payload_size (spec_layout 9) \<and>
   unat (0 + 10 :: 16 word) \<le> payload_size (spec_layout 9) \<and>
   dispatches (svc_events (snd (split_svc_run_behavior (spec_layout 9) (behaviors_return 0) 0
                                  split_svc_init foo_message 15 0))) = 1 \<and>
   dispatches (svc_events (snd (split_svc_run_behavior (spec_layout 9) (behaviors_return 0) 0
                                  split_svc_init chunk1 10 0))) = 0"
proof -
  let ?full = "snd (split_svc_run_behavior (spec_layout 9) (behaviors_return 0) 0
                      split_svc_init foo_message 15 0)"
  have h: "unat (0 + 15 :: 16 word) \<le> payload_size (spec_layout 9)"
    by (simp add: payload_size_def spec_layout_def)
  have h': "unat (0 + 10 :: 16 word) \<le> payload_size (spec_layout 9)"
    by (simp add: payload_size_def spec_layout_def)
  have past: "data_size (spec_layout 9) < unat (0 + 15 :: 16 word)"
    and not_past: "\<not> data_size (spec_layout 9) < unat (0 + 10 :: 16 word)"
    by (simp_all add: spec_layout_def)
  have "behavior_run_payload ?full = memcpy (behavior_run_payload split_svc_init) 0 foo_message 15"
    using run_behavior_accepted(2) [OF h, of "behaviors_return 0" 0 split_svc_init foo_message]
    by simp
  then have nul: "behavior_run_payload ?full (unat (0 + 15 :: 16 word) - 1) = 0"
    by (simp add: memcpy_def foo_message_def chunk1_def chunk2_def)
  have none: "dispatches (svc_events split_svc_init) = 0"
    by (simp add: split_svc_init_def dispatches_def)
  from dispatch_iff_end_past_header_and_nul [OF h, of "behaviors_return 0" 0 split_svc_init
      foo_message] past nul none
  have one: "dispatches (svc_events ?full) = 1"
    by (simp add: Let_def)
  from dispatch_iff_end_past_header_and_nul [OF h', of "behaviors_return 0" 0 split_svc_init
      chunk1] not_past none
  have zero: "dispatches (svc_events (snd (split_svc_run_behavior (spec_layout 9)
                 (behaviors_return 0) 0 split_svc_init chunk1 10 0))) = 0"
    by (simp add: Let_def)
  from h h' one zero show ?thesis by blast
qed

text \<open>
  C2. The claim is that the dispatch fires exactly when the write ends past the header
  on a NUL byte of the identifier region, and never before all header bytes are
  present; the comment in the function says the same: it runs when it has got all the
  position, state and parameter data. The function tests only where the write ends. On
  the zeroed buffer, the very first write, one NUL byte at offset 11, is accepted and
  fires a dispatch (a release of the empty identifier with all fields 0), although no
  write has covered any byte of the header.
\<close>

theorem dispatch_without_header_bytes:
  "fst (split_svc_run_behavior (spec_layout 9) (behaviors_return 0) 0 split_svc_init [0] 1 11) = 1 \<and>
   svc_events (snd (split_svc_run_behavior (spec_layout 9) (behaviors_return 0) 0 split_svc_init
                      [0] 1 11))
     = [BindingReleased \<lparr>behavior_dev = [], param1 = 0, param2 = 0\<rparr>
                        \<lparr>position = 0, timestamp = 0\<rparr>] \<and>
   \<not> header_covered (spec_layout 9) [(11, 1)]"
  by (simp add: split_svc_run_behavior_def spec_layout_def payload_size_def Let_def
      split_svc_init_def memcpy_def load_def behavior_dev_offset_def
      behaviors_return_def payload_binding_def payload_event_def payload_state_def
      c_string_def le_word_def upt_rec header_covered_def)

text \<open>
  C3. The scenario of the claim: the message is delivered at start-up in two writes,
  bytes 0 to 9 and then bytes 10 to 14. The first write fires nothing. The second is
  copied ten structures behind the buffer, so the buffer keeps its zeroes from byte 10
  on: the function then reads a NUL at byte 14, a state of 0 and an empty identifier,
  and invokes the release entry point for the empty identifier, not the press entry
  point for \<open>foo\<close>.
\<close>

theorem two_chunk_scenario:
  "svc_events (snd (split_svc_run_behavior (spec_layout 9) (behaviors_return 0) now
                     split_svc_init chunk1 10 0)) = [] \<and>
   svc_events (snd (split_svc_run_behavior (spec_layout 9) (behaviors_return 0) now
                     (snd (split_svc_run_behavior (spec_layout 9) (behaviors_return 0) now
                            split_svc_init chunk1 10 0))
                     chunk2 5 10))
     = [BindingReleased \<lparr>behavior_dev = [], param1 = 10, param2 = 0\<rparr>
                        \<lparr>position = 5, timestamp = now\<rparr>]"
  by (simp add: split_svc_run_behavior_def spec_layout_def payload_size_def Let_def
      split_svc_init_def memcpy_def load_def behavior_dev_offset_def chunk1_def chunk2_def
      behaviors_return_def payload_binding_def payload_event_def payload_state_def
      c_string_def le_word_def upt_rec)

text \<open>
  C6. The claim is that every write with offset plus length greater than the size of
  the buffer is rejected. \<^verbatim>\<open>split_svc_run_behavior\<close> compares the 16-bit sum: for offset
  65535 and length 1 the sum is 65536, far greater than the 20 bytes of the buffer, but
  \<open>end_addr\<close> is 0, the write is accepted, the byte is copied and the function returns
  the length 1, not the invalid-offset error. (\<open>run_behavior_rejects_no_wrap\<close> and
  \<open>update_indicators_rejects\<close>: the rejection holds for \<^verbatim>\<open>split_svc_run_behavior\<close> when
  the sum is below 65536, and for \<^verbatim>\<open>split_svc_update_indicators\<close> always.)
\<close>

theorem run_behavior_end_addr_wraps:
  "unat (65535 :: 16 word) + unat (1 :: 16 word) > payload_size (spec_layout 9) \<and>
   split_svc_run_behavior (spec_layout 9) bhv now s [b] 1 65535
     = (1, s\<lparr>behavior_run_payload :=
               memcpy (behavior_run_payload s) (65535 * payload_size (spec_layout 9)) [b] 1\<rparr>) \<and>
   (1 :: int) \<noteq> BT_GATT_ERR BT_ATT_ERR_INVALID_OFFSET"
  by (simp add: split_svc_run_behavior_def spec_layout_def payload_size_def Let_def
      BT_GATT_ERR_def BT_ATT_ERR_INVALID_OFFSET_def)

text \<open>
  C8. Every accepted write returns its length, which is never the invalid-offset
  error, whatever the behavior collaborator answers. When the write completes a message
  and the invoked entry point returns an error, the new state is the buffer after the
  copy with two more events: the invocation and the log line with the identifier and
  the error. Nothing else records the failure.
\<close>

theorem dispatch_failure_swallowed:
  assumes "unat (offset + len) \<le> payload_size L"
  shows "fst (split_svc_run_behavior L bhv now s buf len offset) = int (unat len) \<and>
         fst (split_svc_run_behavior L bhv now s buf len offset)
           \<noteq> BT_GATT_ERR BT_ATT_ERR_INVALID_OFFSET \<and>
         (let m = memcpy (behavior_run_payload s) (unat offset * payload_size L) buf (unat len);
              binding = payload_binding L m;
              event = payload_event L m now;
              pressed = (payload_state L m > 0);
              err = (if pressed then behavior_keymap_binding_pressed bhv binding event
                     else behavior_keymap_binding_released bhv binding event)
          in data_size L < unat (offset + len) \<and> m (unat (offset + len) - 1) = 0 \<and> err \<noteq> 0 \<longrightarrow>
             snd (split_svc_run_behavior L bhv now s buf len offset)
               = s\<lparr>behavior_run_payload := m,
                   svc_events := svc_events s @
                     [if pressed then BindingPressed binding event
                      else BindingReleased binding event,
                      LogFailedInvoke (behavior_dev binding) err]\<rparr>)"
proof -
  have idx: "data_size L < unat (offset + len) \<Longrightarrow>
      behavior_dev_offset L + (unat (offset + len) - behavior_dev_offset L - 1)
        = unat (offset + len) - 1"
    by (simp add: behavior_dev_offset_def)
  have "int (unat len) \<noteq> BT_GATT_ERR BT_ATT_ERR_INVALID_OFFSET"
    unfolding BT_GATT_ERR_def BT_ATT_ERR_INVALID_OFFSET_def by linarith
  then show ?thesis
    using assms idx
    by (simp add: split_svc_run_behavior_def Let_def)
qed

theorem dispatch_failure_swallowed_witness:
  "unat (0 + 15 :: 16 word) \<le> payload_size (spec_layout 9) \<and>
   split_svc_run_behavior (spec_layout 9) (behaviors_return (- 22)) 1000 split_svc_init
       foo_message 15 0
     = (15, split_svc_init
          \<lparr>behavior_run_payload :=
              memcpy (behavior_run_payload split_svc_init) 0 foo_message 15,
           svc_events :=
             [BindingPressed \<lparr>behavior_dev = map of_char ''foo'', param1 = 10, param2 = 0\<rparr>
                             \<lparr>position = 5, timestamp = 1000\<rparr>,
              LogFailedInvoke (map of_char ''foo'') (- 22)]\<rparr>)"
proof -
  let ?m = "memcpy (behavior_run_payload split_svc_init) (unat (0 :: 16 word) * payload_size (spec_layout 9))
              foo_message (unat (15 :: 16 word))"
  have h: "unat (0 + 15 :: 16 word) \<le> payload_size (spec_layout 9)"
    by (simp add: payload_size_def spec_layout_def)
  have m: "?m = memcpy (behavior_run_payload split_svc_init) 0 foo_message 15" by simp
  have b: "payload_binding (spec_layout 9) ?m
             = \<lparr>behavior_dev = map of_char ''foo'', param1 = 10, param2 = 0\<rparr>"
    by (simp add: payload_binding_def spec_layout_def behavior_dev_offset_def c_string_def
        load_def memcpy_def foo_message_def chunk1_def chunk2_def le_word_def upt_rec split_svc_init_def)
  have e: "payload_event (spec_layout 9) ?m 1000 = \<lparr>position = 5, timestamp = 1000\<rparr>"
    by (simp add: payload_event_def spec_layout_def load_def memcpy_def foo_message_def chunk1_def chunk2_def
        le_word_def upt_rec)
  have p: "payload_state (spec_layout 9) ?m > 0"
    by (simp add: payload_state_def spec_layout_def memcpy_def foo_message_def chunk1_def chunk2_def)
  have c: "data_size (spec_layout 9) < unat (0 + 15 :: 16 word) \<and> ?m (unat (0 + 15 :: 16 word) - 1) = 0"
    by (simp add: spec_layout_def memcpy_def foo_message_def chunk1_def chunk2_def)
  note t = dispatch_failure_swallowed [OF h, of "behaviors_return (- 22)" 1000 split_svc_init foo_message]
  from t b e p c m h show ?thesis
    by (simp add: Let_def behaviors_return_def prod_eq_iff split_svc_init_def)
qed

end
